theory Spec2Isabelle
  imports Complex_Main "HOL-Library.Word"
begin

unbundle bit_operations_syntax

section \<open>Characters\<close>

text \<open>
  The sources classify bytes with \<^verbatim>\<open>std::isalpha\<close>, \<^verbatim>\<open>std::isdigit\<close>,
  \<^verbatim>\<open>std::isalnum\<close> and \<^verbatim>\<open>std::isspace\<close> on an \<^verbatim>\<open>unsigned char\<close>.
  No locale is ever installed, so the "C" locale applies: letters are
  \<^verbatim>\<open>A-Z a-z\<close>, digits \<^verbatim>\<open>0-9\<close>, white space is space, \<^verbatim>\<open>\t \n \v \f \r\<close>.
  A \<^typ>\<open>char\<close> is one byte; \<^term>\<open>of_char\<close> gives its code.
\<close>

definition code_of :: "char \<Rightarrow> nat" where
  "code_of c = of_char c"

definition is_upper :: "char \<Rightarrow> bool" where
  "is_upper c = (65 \<le> code_of c \<and> code_of c \<le> 90)"

definition is_lower :: "char \<Rightarrow> bool" where
  "is_lower c = (97 \<le> code_of c \<and> code_of c \<le> 122)"

definition isalpha :: "char \<Rightarrow> bool" where
  "isalpha c = (is_upper c \<or> is_lower c)"

definition isdigit :: "char \<Rightarrow> bool" where
  "isdigit c = (48 \<le> code_of c \<and> code_of c \<le> 57)"

definition isalnum :: "char \<Rightarrow> bool" where
  "isalnum c = (isalpha c \<or> isdigit c)"

definition isspace :: "char \<Rightarrow> bool" where
  "isspace c = (code_of c = 32 \<or> (9 \<le> code_of c \<and> code_of c \<le> 13))"

definition is_ident_start :: "char \<Rightarrow> bool" where
  "is_ident_start c = (isalpha c \<or> c = CHR ''_'')"

definition is_ident_char :: "char \<Rightarrow> bool" where
  "is_ident_char c = (isalnum c \<or> c = CHR ''_'')"

section \<open>The separator oracle\<close>

text \<open>The set \<^verbatim>\<open>multi\<close> of \<^verbatim>\<open>needs_separator\<close>.\<close>

definition multi :: "string list" where
  "multi = [''>>='', ''<<='', ''->*'', ''::'', ''->'', ''++'', ''--'', ''<<'', ''>>'',
     ''&&'', ''||'', ''=='', ''!='', ''<='', ''>='', ''+='', ''-='', ''*='', ''/='',
     ''%='', ''&='', ''|='', ''^='', ''##'', ''...'']"

definition ends_with_quote :: "string \<Rightarrow> bool" where
  "ends_with_quote s = (s \<noteq> [] \<and> (last s = CHR 0x22 \<or> last s = CHR 0x27))"

text \<open>
  \<^verbatim>\<open>needs_separator(a, b)\<close>: the rules in the order of the source; \<open>ca\<close> is
  \<^verbatim>\<open>a.back()\<close>, \<open>cb\<close> is \<^verbatim>\<open>b.front()\<close>.
\<close>

definition needs_separator :: "string \<Rightarrow> string \<Rightarrow> bool" where
  "needs_separator a b =
    (if a = [] \<or> b = [] then False
     else
       let ca = last a; cb = hd b in
       if is_ident_char ca \<and> is_ident_char cb then True
       else if (ca = CHR ''/'' \<and> cb = CHR ''/'') \<or> (ca = CHR ''/'' \<and> cb = CHR ''*'')
               \<or> (ca = CHR ''*'' \<and> cb = CHR ''/'') then True
       else if 2 \<le> length a \<and> (drop (length a - 2) a @ [cb]) \<in> set multi then True
       else if [ca, cb] \<in> set multi then True
       else if 2 \<le> length b \<and> [ca, cb, b ! 1] \<in> set multi then True
       else if ca = CHR ''.'' \<and> 2 \<le> length b \<and> b ! 0 = CHR ''.'' \<and> b ! 1 = CHR ''.'' then True
       else if 2 \<le> length a \<and> a ! (length a - 2) = CHR ''.'' \<and> a ! (length a - 1) = CHR ''.''
               \<and> cb = CHR ''.'' then True
       else if (ends_with_quote a \<or> isdigit ca) \<and> (isalpha cb \<or> cb = CHR ''_'') then True
       else if (ca = CHR ''.'' \<and> isdigit cb) \<or> (isdigit ca \<and> cb = CHR ''.'') then True
       else False)"

section \<open>Density map and art parser\<close>

text \<open>
  \<^verbatim>\<open>struct AsciiDensity { std::vector<double> v; }\<close> and
  \<^verbatim>\<open>struct Art { int W; int H; std::vector<std::vector<double>> density; }\<close>.
  (the fields \<^verbatim>\<open>W\<close> and \<^verbatim>\<open>H\<close> are \<open>art_W\<close> and \<open>art_H\<close> here).
  The only doubles the program ever stores are copies of map entries and the
  constants \<^verbatim>\<open>0.0\<close> and \<^verbatim>\<open>1.0\<close>; the only operation on them is the comparison
  \<^verbatim>\<open>d >= 0.5\<close>. They are modelled as \<^typ>\<open>real\<close>.
\<close>

record AsciiDensity =
  v :: "real list"

record Art =
  art_W :: int
  art_H :: int
  density :: "real list list"

definition default_ascii_density_01 :: AsciiDensity where
  "default_ascii_density_01 = \<lparr> v = (replicate 128 1)[32 := 0] \<rparr>"

text \<open>What the program can raise or abort with.\<close>

datatype error =
  LengthError      \<comment> \<open>\<^verbatim>\<open>std::length_error\<close> of a vector sized with a negative \<^verbatim>\<open>int\<close>\<close>
  | AssertionFailed  \<comment> \<open>the \<^verbatim>\<open>assert\<close> of \<^verbatim>\<open>convert_layout\<close>\<close>
  | IntOverflow      \<comment> \<open>a product of \<^verbatim>\<open>int\<close>s above \<^verbatim>\<open>INT_MAX\<close>: the behaviour is undefined from there\<close>

text \<open>
  The line splitter of \<^verbatim>\<open>parse_art_to_density\<close>: \<^verbatim>\<open>find('\n', start)\<close>, the piece
  before it, and again from the byte after it; the piece after the last newline
  (possibly empty) closes the list.
\<close>

function split_lines :: "string \<Rightarrow> string list" where
  "split_lines s =
     (let piece = takeWhile (\<lambda>c. c \<noteq> CHR 0x0A) s;
          rest = dropWhile (\<lambda>c. c \<noteq> CHR 0x0A) s
      in case rest of
           [] \<Rightarrow> [piece]
         | _ # start \<Rightarrow> piece # split_lines start)"
  by pat_completeness auto

termination
proof (relation "measure length")
  show "wf (measure length)" by simp
next
  fix s :: string and piece rest c start
  assume "rest = dropWhile (\<lambda>c. c \<noteq> CHR 0x0A) s" and "rest = c # start"
  then have "length (c # start) \<le> length s"
    by (metis length_dropWhile_le)
  then show "(start, s) \<in> measure length" by simp
qed

declare split_lines.simps [simp del]

text \<open>
  The lambda \<^verbatim>\<open>utf8_to_u32\<close>. \<open>c0\<close> is the byte at \<open>i\<close>, \<open>cs\<close> the bytes after it,
  so \<^verbatim>\<open>i + k < s.size()\<close> reads \<open>k \<le> length cs\<close>.
\<close>

definition byte :: "char \<Rightarrow> 8 word" where
  "byte c = of_char c"

function utf8_to_u32 :: "string \<Rightarrow> 32 word list" where
  "utf8_to_u32 [] = []"
| "utf8_to_u32 (c # cs) =
     (let c0 = byte c in
      if c0 AND 0x80 = 0 then ucast c0 # utf8_to_u32 cs
      else if c0 AND 0xE0 = 0xC0 \<and> 1 \<le> length cs then
        (let c1 = byte (cs ! 0) in
         (push_bit 6 (ucast (c0 AND 0x1F)) OR ucast (c1 AND 0x3F)) # utf8_to_u32 (drop 1 cs))
      else if c0 AND 0xF0 = 0xE0 \<and> 2 \<le> length cs then
        (let c1 = byte (cs ! 0); c2 = byte (cs ! 1) in
         (push_bit 12 (ucast (c0 AND 0x0F)) OR push_bit 6 (ucast (c1 AND 0x3F))
            OR ucast (c2 AND 0x3F)) # utf8_to_u32 (drop 2 cs))
      else if c0 AND 0xF8 = 0xF0 \<and> 3 \<le> length cs then
        (let c1 = byte (cs ! 0); c2 = byte (cs ! 1); c3 = byte (cs ! 2) in
         (push_bit 18 (ucast (c0 AND 0x07)) OR push_bit 12 (ucast (c1 AND 0x3F))
            OR push_bit 6 (ucast (c2 AND 0x3F)) OR ucast (c3 AND 0x3F)) # utf8_to_u32 (drop 3 cs))
      else utf8_to_u32 cs)"
  by pat_completeness auto

termination
  by (relation "measure length") auto

text \<open>\<^verbatim>\<open>u32lines.resize(H)\<close>: cut, or pad with empty rows.\<close>

definition resize :: "nat \<Rightarrow> 'a list list \<Rightarrow> 'a list list" where
  "resize n xs = take n xs @ replicate (n - length xs) []"

text \<open>One cell: the code point at column \<open>j\<close> of the row, a space beyond its end.\<close>

definition cell_density :: "AsciiDensity \<Rightarrow> 32 word list \<Rightarrow> nat \<Rightarrow> real" where
  "cell_density local_map row j =
     (let cp = (if j < length row then row ! j else 0x20) in
      if cp \<le> 127 \<and> unat cp < length (v local_map) then v local_map ! unat cp else 1)"

text \<open>
  The lines after the split and the drop of the trailing empty one
  (\<^verbatim>\<open>lines.pop_back()\<close>).
\<close>

definition art_lines :: "string \<Rightarrow> int option \<Rightarrow> int option \<Rightarrow> string list" where
  "art_lines art_text width_override height_override =
     (let lines = split_lines art_text in
      if lines \<noteq> [] \<and> last lines = [] \<and> height_override = None \<and> width_override = None
         \<and> art_text \<noteq> [] \<and> last art_text = CHR 0x0A
      then butlast lines else lines)"

text \<open>
  \<^verbatim>\<open>parse_art_to_density\<close>. A negative \<^verbatim>\<open>height_override\<close> reaches
  \<^verbatim>\<open>u32lines.resize(H)\<close> and a negative width reaches
  \<^verbatim>\<open>std::vector<double>(W, 0.0)\<close>, each converted to a huge \<^verbatim>\<open>size_t\<close>: the
  standard library throws, which is the \<open>Inl\<close> result here.
\<close>

definition parse_art_to_density ::
  "string \<Rightarrow> int option \<Rightarrow> int option \<Rightarrow> AsciiDensity option \<Rightarrow> error + Art" where
  "parse_art_to_density art_text width_override height_override dmap =
     (let local_map = (case dmap of Some m \<Rightarrow> m | None \<Rightarrow> default_ascii_density_01);
          u32lines0 = List.map utf8_to_u32 (art_lines art_text width_override height_override);
          H0 = (case height_override of Some h \<Rightarrow> h | None \<Rightarrow> int (length u32lines0))
      in if H0 < 0 then Inl LengthError
      else
        let u32lines = (case height_override of Some h \<Rightarrow> resize (nat h) u32lines0
                          | None \<Rightarrow> u32lines0);
            W1 = fold (\<lambda>s W. if int (length s) > W then int (length s) else W) u32lines 0;
            W2 = (if width_override = None \<and> u32lines = [] then 80 else W1);
            W3 = (case width_override of Some w \<Rightarrow> w | None \<Rightarrow> W2)
        in if W3 < 0 then Inl LengthError
        else Inr \<lparr> art_W = W3, art_H = H0,
                   density = List.map
                     (\<lambda>i. List.map
                        (\<lambda>j. cell_density local_map
                               (if i < length u32lines then u32lines ! i else []) j)
                        [0 ..< nat W3])
                     [0 ..< nat H0] \<rparr>)"

section \<open>Comment stripper\<close>

datatype State = Normal | InBlock | InLine | InStr | InChar | InRaw

text \<open>
  The delimiter loop of the stripper, started with \<^verbatim>\<open>raw_delim\<close> cleared at the byte
  after \<^verbatim>\<open>R"\<close>: it stops at \<^verbatim>\<open>(\<close>, at the end of the input, or breaks on a byte
  a delimiter may not hold or when \<^verbatim>\<open>raw_delim.size() > 16\<close>. It returns the
  delimiter read and the input from index \<open>j\<close> on.
\<close>

fun strip_delim :: "string \<Rightarrow> string \<Rightarrow> string \<times> string" where
  "strip_delim raw_delim [] = (raw_delim, [])"
| "strip_delim raw_delim (d # ds) =
     (if d = CHR ''('' then (raw_delim, d # ds)
      else if d = CHR '')'' \<or> d = CHR 0x5C \<or> isspace d \<or> length raw_delim > 16
        then (raw_delim, d # ds)
      else strip_delim (raw_delim @ [d]) ds)"

text \<open>
  \<^verbatim>\<open>if (j < code.size() && code[j] == '(')\<close>: the opener is recognised; the result
  is the delimiter and the input after the parenthesis (index \<open>j + 1\<close>).
\<close>

definition raw_open :: "string \<Rightarrow> (string \<times> string) option" where
  "raw_open xs =
     (case strip_delim [] xs of
        (raw_delim, r) \<Rightarrow>
          (case r of [] \<Rightarrow> None
           | d # r' \<Rightarrow> if d = CHR ''('' then Some (raw_delim, r') else None))"

lemma strip_delim_length: "length (snd (strip_delim a xs)) \<le> length xs"
  by (induction a xs rule: strip_delim.induct) (auto simp: le_SucI)

lemma raw_open_shorter: "raw_open xs = Some (d, r) \<Longrightarrow> length r < length xs"
proof -
  assume h: "raw_open xs = Some (d, r)"
  obtain a b where ab: "strip_delim [] xs = (a, b)" by (cases "strip_delim [] xs")
  with h obtain p where "b = p # r"
    by (auto simp: raw_open_def split: list.splits if_splits)
  moreover have "length b \<le> length xs" using strip_delim_length [of "[]" xs] ab by simp
  ultimately show ?thesis by simp
qed

text \<open>
  The condition that guards the prefixed forms \<^verbatim>\<open>u8R"\<close>, \<^verbatim>\<open>uR"\<close>, \<^verbatim>\<open>UR"\<close>,
  \<^verbatim>\<open>LR"\<close>; \<open>c\<close> is \<^verbatim>\<open>code[i]\<close>, \<open>n\<close> the next byte and \<open>cs\<close> the input from
  \<open>i + 1\<close>.
\<close>

definition prefixed_raw_start :: "char \<Rightarrow> char \<Rightarrow> string \<Rightarrow> bool" where
  "prefixed_raw_start c n cs =
     ((c = CHR ''u'' \<and> n = CHR ''8'' \<and> 1 < length cs \<and> cs ! 1 = CHR ''R''
         \<and> 2 < length cs \<and> cs ! 2 = CHR 0x22)
      \<or> (c = CHR ''u'' \<and> n = CHR ''R'' \<and> 1 < length cs \<and> cs ! 1 = CHR 0x22)
      \<or> (c = CHR ''U'' \<and> n = CHR ''R'' \<and> 1 < length cs \<and> cs ! 1 = CHR 0x22)
      \<or> (c = CHR ''L'' \<and> n = CHR ''R'' \<and> 1 < length cs \<and> cs ! 1 = CHR 0x22))"

text \<open>
  The scanner of \<^verbatim>\<open>strip_comments_preserve_literals\<close>, on the input from index \<open>i\<close>.
  What the source appends to \<^verbatim>\<open>out\<close> is consed in front of the rest of the output.
  \<^verbatim>\<open>raw_delim\<close> is only read in state \<open>InRaw\<close>, which is entered right after it has
  been set, so a scan that does not find an opener leaves it as it was here.
\<close>

function strip_loop :: "State \<Rightarrow> string \<Rightarrow> bool \<Rightarrow> string \<Rightarrow> string" where
  "strip_loop st raw_delim esc [] = []"
| "strip_loop st raw_delim esc (c # cs) =
     (let n = (case cs of [] \<Rightarrow> CHR 0x00 | x # _ \<Rightarrow> x) in
      case st of
        Normal \<Rightarrow>
          (case (if c = CHR ''R'' \<and> n = CHR 0x22 then raw_open (drop 1 cs) else None) of
             Some (d, r) \<Rightarrow> [CHR ''R'', CHR 0x22] @ d @ [CHR ''(''] @ strip_loop InRaw d esc r
           | None \<Rightarrow>
               (let plen = (if c = CHR ''u'' \<and> n = CHR ''8'' then 4 else 3) in
                case (if prefixed_raw_start c n cs then raw_open (drop (plen - 1) cs) else None) of
                  Some (d, r) \<Rightarrow>
                    take plen (c # cs) @ d @ [CHR ''(''] @ strip_loop InRaw d esc r
                | None \<Rightarrow>
                    if c = CHR ''/'' \<and> n = CHR ''*'' then strip_loop InBlock raw_delim esc (drop 1 cs)
                    else if c = CHR ''/'' \<and> n = CHR ''/'' then strip_loop InLine raw_delim esc (drop 1 cs)
                    else if c = CHR 0x22 then c # strip_loop InStr raw_delim False cs
                    else if c = CHR 0x27 then c # strip_loop InChar raw_delim False cs
                    else c # strip_loop Normal raw_delim esc cs))
      | InBlock \<Rightarrow>
          if c = CHR ''*'' \<and> n = CHR ''/'' then strip_loop Normal raw_delim esc (drop 1 cs)
          else strip_loop InBlock raw_delim esc cs
      | InLine \<Rightarrow>
          if c = CHR 0x0A then c # strip_loop Normal raw_delim esc cs
          else strip_loop InLine raw_delim esc cs
      | InStr \<Rightarrow>
          c # (if esc then strip_loop InStr raw_delim False cs
               else if c = CHR 0x5C then strip_loop InStr raw_delim True cs
               else if c = CHR 0x22 then strip_loop Normal raw_delim esc cs
               else strip_loop InStr raw_delim esc cs)
      | InChar \<Rightarrow>
          c # (if esc then strip_loop InChar raw_delim False cs
               else if c = CHR 0x5C then strip_loop InChar raw_delim True cs
               else if c = CHR 0x27 then strip_loop Normal raw_delim esc cs
               else strip_loop InChar raw_delim esc cs)
      | InRaw \<Rightarrow>
          (let need = length raw_delim in
           if c = CHR '')'' \<and> raw_delim \<noteq> [] \<and> need < length cs \<and> take need cs = raw_delim
              \<and> cs ! need = CHR 0x22
           then [CHR '')''] @ raw_delim @ [CHR 0x22] @ strip_loop Normal raw_delim esc (drop (need + 1) cs)
           else c # strip_loop InRaw raw_delim esc cs))"
  by pat_completeness auto

termination
  by (relation "measure (\<lambda>(st, raw_delim, esc, code). length code)")
     (auto dest!: raw_open_shorter split: if_splits)

definition strip_comments_preserve_literals :: "string \<Rightarrow> string" where
  "strip_comments_preserve_literals code = strip_loop Normal [] False code"

section \<open>Tokenizer\<close>

text \<open>
  \<^verbatim>\<open>code[k]\<close> on the \<^verbatim>\<open>string_view\<close>. The tokenizer reads \<^verbatim>\<open>code[i]\<close> once with
  \<open>i\<close> possibly equal to the size (after \<^verbatim>\<open>i += 2\<close> on a final \<^verbatim>\<open>u8\<close>); the view
  is over a \<^verbatim>\<open>std::string\<close>, whose buffer holds a zero byte there.
\<close>

definition byte_at :: "string \<Rightarrow> nat \<Rightarrow> char" where
  "byte_at s k = (if k < length s then s ! k else CHR 0x00)"

definition starts_with :: "string \<Rightarrow> string \<Rightarrow> bool" where
  "starts_with s p = (length p \<le> length s \<and> take (length p) s = p)"

text \<open>
  The delimiter loop of \<^verbatim>\<open>parse_raw_string\<close>: \<open>None\<close> is its \<^verbatim>\<open>return false\<close>;
  otherwise the delimiter and the input from index \<open>k\<close>.
\<close>

fun tok_delim :: "string \<Rightarrow> string \<Rightarrow> (string \<times> string) option" where
  "tok_delim delim [] = Some (delim, [])"
| "tok_delim delim (d # ds) =
     (if d = CHR ''('' then Some (delim, d # ds)
      else if d = CHR '')'' \<or> d = CHR 0x5C \<or> isspace d \<or> length delim > 16 then None
      else tok_delim (delim @ [d]) ds)"

text \<open>
  The search for \<^verbatim>\<open>)delim"\<close> from \<open>pos\<close>: the number of bytes from \<open>pos\<close> to the
  end \<open>j\<close> of the literal, which is the end of the input when nothing closes it.
\<close>

fun find_raw_close :: "string \<Rightarrow> string \<Rightarrow> nat" where
  "find_raw_close delim [] = 0"
| "find_raw_close delim (c # cs) =
     (if c = CHR '')'' \<and> length delim < length cs \<and> take (length delim) cs = delim
         \<and> cs ! length delim = CHR 0x22
      then 2 + length delim
      else 1 + find_raw_close delim cs)"

text \<open>
  \<^verbatim>\<open>parse_raw_string(s, i, j)\<close> on the input from \<open>i\<close>: \<open>Some (j - i)\<close> when it
  returns true.
\<close>

definition parse_raw_string :: "string \<Rightarrow> nat option" where
  "parse_raw_string s =
     (if \<not> (1 < length s \<and> s ! 0 = CHR ''R'' \<and> s ! 1 = CHR 0x22) then None
      else case tok_delim [] (drop 2 s) of
             None \<Rightarrow> None
           | Some (delim, r) \<Rightarrow>
               (case r of
                  [] \<Rightarrow> None
                | p # body \<Rightarrow>
                    if p \<noteq> CHR ''('' then None
                    else Some (2 + length delim + 1 + find_raw_close delim body)))"

text \<open>The lambda \<^verbatim>\<open>test\<close> of \<^verbatim>\<open>parse_prefixed_raw\<close>, and the four tests in order.\<close>

definition test_prefix :: "string \<Rightarrow> string \<Rightarrow> nat \<Rightarrow> nat option" where
  "test_prefix s pfx off =
     (if starts_with s pfx \<and> off < length s \<and> s ! off = CHR ''R''
         \<and> off + 1 < length s \<and> s ! (off + 1) = CHR 0x22
      then (case parse_raw_string (drop off s) of Some jj \<Rightarrow> Some (off + jj) | None \<Rightarrow> None)
      else None)"

definition parse_prefixed_raw :: "string \<Rightarrow> nat option" where
  "parse_prefixed_raw s =
     (case test_prefix s ''u8'' 2 of Some j \<Rightarrow> Some j | None \<Rightarrow>
      case test_prefix s ''u'' 1 of Some j \<Rightarrow> Some j | None \<Rightarrow>
      case test_prefix s ''U'' 1 of Some j \<Rightarrow> Some j | None \<Rightarrow>
      test_prefix s ''L'' 1)"

definition PUNCTS :: "string list" where
  "PUNCTS = [''>>='', ''<<='', ''->*'', ''::'', ''->'', ''++'', ''--'', ''<<'', ''>>'',
     ''&&'', ''||'', ''=='', ''!='', ''<='', ''>='', ''+='', ''-='', ''*='', ''/='',
     ''%='', ''&='', ''|='', ''^='', ''##'']"

text \<open>\<^verbatim>\<open>match_from\<close>: the length of the first punctuator of the list the input starts with.\<close>

fun match_from :: "string \<Rightarrow> string list \<Rightarrow> nat option" where
  "match_from s [] = None"
| "match_from s (p # arr) = (if starts_with s p then Some (length p) else match_from s arr)"

text \<open>
  The loops that run to the closing quote \<open>q\<close> of a string or character literal: the
  number of bytes read after the opening quote.
\<close>

fun scan_quoted :: "char \<Rightarrow> bool \<Rightarrow> string \<Rightarrow> nat" where
  "scan_quoted q esc2 [] = 0"
| "scan_quoted q esc2 (ch # r) =
     (if esc2 then 1 + scan_quoted q False r
      else if ch = CHR 0x5C then 1 + scan_quoted q True r
      else if ch = q then 1
      else 1 + scan_quoted q False r)"

text \<open>
  The string branch, on the input from \<open>b\<close>: the length of the literal, or \<open>None\<close>
  when the branch is not taken or falls back (\<^verbatim>\<open>i = b\<close>).
\<close>

definition string_literal :: "string \<Rightarrow> nat option" where
  "string_literal s =
     (if byte_at s 0 = CHR 0x22
         \<or> (byte_at s 0 = CHR ''u'' \<and> 1 < length s \<and> (s ! 1 = CHR ''8'' \<or> s ! 1 = CHR 0x22))
         \<or> (byte_at s 0 = CHR ''U'' \<and> 1 < length s \<and> s ! 1 = CHR 0x22)
         \<or> (byte_at s 0 = CHR ''L'' \<and> 1 < length s \<and> s ! 1 = CHR 0x22)
      then
        let i1 = (if byte_at s 0 = CHR ''u'' \<and> 1 < length s \<and> s ! 1 = CHR ''8'' then 2 else 0);
            i2 = (if (byte_at s i1 = CHR ''u'' \<or> byte_at s i1 = CHR ''U'' \<or> byte_at s i1 = CHR ''L'')
                     \<and> i1 + 1 < length s \<and> s ! (i1 + 1) = CHR 0x22 then i1 + 1 else i1)
        in if byte_at s i2 = CHR 0x22 then Some (i2 + 1 + scan_quoted (CHR 0x22) False (drop (i2 + 1) s))
           else None
      else None)"

text \<open>The character-literal branch, likewise.\<close>

definition char_literal :: "string \<Rightarrow> nat option" where
  "char_literal s =
     (let pfx = ((byte_at s 0 = CHR ''u'' \<or> byte_at s 0 = CHR ''U'' \<or> byte_at s 0 = CHR ''L'')
                  \<and> 1 < length s \<and> s ! 1 = CHR 0x27)
      in if byte_at s 0 = CHR 0x27 \<or> pfx
         then
           let i1 = (if pfx then 1 else 0)
           in if byte_at s i1 = CHR 0x27
              then Some (i1 + 1 + scan_quoted (CHR 0x27) False (drop (i1 + 1) s))
              else None
         else None)"

text \<open>
  One round of the loop at a byte that is not white space: the length of the token
  pushed, by the branches in the order of the source.
\<close>

definition next_token_len :: "string \<Rightarrow> nat" where
  "next_token_len s =
     (case parse_prefixed_raw s of Some j \<Rightarrow> j | None \<Rightarrow>
      case (case parse_raw_string s of Some j \<Rightarrow> if j > 0 then Some j else None | None \<Rightarrow> None) of
        Some j \<Rightarrow> j | None \<Rightarrow>
      case string_literal s of Some j \<Rightarrow> j | None \<Rightarrow>
      case char_literal s of Some j \<Rightarrow> j | None \<Rightarrow>
      if is_ident_start (byte_at s 0) then 1 + length (takeWhile is_ident_char (drop 1 s))
      else if isdigit (byte_at s 0) then
        1 + length (takeWhile (\<lambda>x. isalnum x \<or> x = CHR ''.'' \<or> x = CHR ''_'' \<or> x = CHR 0x27) (drop 1 s))
      else case match_from s PUNCTS of Some m \<Rightarrow> m | None \<Rightarrow> 1)"

lemma parse_raw_string_pos: "parse_raw_string s = Some j \<Longrightarrow> 0 < j"
  by (auto simp: parse_raw_string_def split: if_splits option.splits list.splits)

lemma test_prefix_pos: "test_prefix s p off = Some j \<Longrightarrow> 0 < j"
  by (auto simp: test_prefix_def dest: parse_raw_string_pos split: if_splits option.splits)

lemma parse_prefixed_raw_pos: "parse_prefixed_raw s = Some j \<Longrightarrow> 0 < j"
  unfolding parse_prefixed_raw_def
  by (auto dest: test_prefix_pos split: option.splits)

lemma string_literal_pos: "string_literal s = Some j \<Longrightarrow> 0 < j"
  unfolding string_literal_def Let_def by (simp split: if_splits)

lemma char_literal_pos: "char_literal s = Some j \<Longrightarrow> 0 < j"
  unfolding char_literal_def Let_def by (simp split: if_splits)

lemma match_from_pos: "match_from s arr = Some m \<Longrightarrow> [] \<notin> set arr \<Longrightarrow> 0 < m"
  by (induction arr) (auto split: if_splits)

lemma match_from_PUNCTS_pos: "match_from s PUNCTS = Some m \<Longrightarrow> 0 < m"
  by (erule match_from_pos) (simp add: PUNCTS_def)

lemma next_token_len_pos: "0 < next_token_len s"
  unfolding next_token_len_def
  by (simp split: option.split add: parse_prefixed_raw_pos string_literal_pos char_literal_pos
      match_from_PUNCTS_pos)

text \<open>
  \<^verbatim>\<open>tokenize_minimal_cpp\<close>: the loop \<^verbatim>\<open>while (i < n)\<close> on the input from \<open>i\<close>;
  \<^verbatim>\<open>push(b, e)\<close> conses the token in front of the tokens that follow.
\<close>

function tokenize_loop :: "string \<Rightarrow> string list" where
  "tokenize_loop [] = []"
| "tokenize_loop (c # cs) =
     (if isspace c then tokenize_loop cs
      else let j = next_token_len (c # cs)
           in take j (c # cs) # tokenize_loop (drop j (c # cs)))"
  by pat_completeness auto

termination
proof (relation "measure length", goal_cases)
  case 1
  show ?case by simp
next
  case (2 c cs)
  show ?case by simp
next
  case (3 c cs j)
  then show ?case using next_token_len_pos [of "c # cs"] by simp
qed

definition tokenize_minimal_cpp :: "string \<Rightarrow> string list" where
  "tokenize_minimal_cpp code = tokenize_loop code"

section \<open>Layout engine\<close>

subsection \<open>Constants and the random stream\<close>

definition min_width :: int where "min_width = 80"
definition shoot :: int where "shoot = 10"
definition MN_TOKENS :: int where "MN_TOKENS = 4"
definition SCORE_RELAXATION_FACTOR :: int where "SCORE_RELAXATION_FACTOR = 10"
definition MX_COMMENT_LENGTH :: int where "MX_COMMENT_LENGTH = 20"
definition NEG_INF :: int where "NEG_INF = - 1000000000"

text \<open>
  \<^verbatim>\<open>std::mt19937 rng(std::random_device{}())\<close>: the generator is seeded from the
  environment, so the values its distributions return are an arbitrary infinite
  sequence, one element per call. A seed is such a sequence; \<open>draw\<close> takes its head.
\<close>

type_synonym rng = "nat \<Rightarrow> nat"

definition draw :: "rng \<Rightarrow> nat \<times> rng" where
  "draw r = (r 0, \<lambda>k. r (Suc k))"

definition coin :: "rng \<Rightarrow> int \<times> rng" where
  "coin r = (case draw r of (x, r') \<Rightarrow> (int (x mod 2), r'))"

definition dist :: "rng \<Rightarrow> int \<times> rng" where
  "dist r = (case draw r of (x, r') \<Rightarrow> (int (x mod 26), r'))"

definition w_extra_dist :: "rng \<Rightarrow> int \<times> rng" where
  "w_extra_dist r = (case draw r of (x, r') \<Rightarrow> (int (x mod nat shoot), r'))"

definition rand_character :: "rng \<Rightarrow> char \<times> rng" where
  "rand_character r = (case dist r of (x, r') \<Rightarrow> (char_of (97 + x), r'))"

subsection \<open>What a row is solved against\<close>

text \<open>
  The variables the lambdas of a row capture: the tokens, \<open>W\<close>, \<open>H\<close>, the
  precomputed tables \<^verbatim>\<open>dens01\<close> and \<^verbatim>\<open>char01\<close>, and the cursor \<open>row\<close>, \<open>taken\<close>
  at the start of the row.
\<close>

record ctx =
  tokens :: "string list"
  c_W :: int
  c_H :: int
  dens01 :: "int \<Rightarrow> int \<Rightarrow> int"
  char01 :: "nat \<Rightarrow> int"
  c_row :: int
  c_taken :: int

definition is_one :: "real \<Rightarrow> int" where
  "is_one d = (if d \<ge> 0.5 then 1 else 0)"

definition W_BOUND :: "ctx \<Rightarrow> int" where
  "W_BOUND c = c_W c + shoot"

definition n_tokens :: "ctx \<Rightarrow> int" where
  "n_tokens c = int (length (tokens c))"

definition tokens_left_total :: "ctx \<Rightarrow> int" where
  "tokens_left_total c = max 0 (n_tokens c - c_taken c)"

definition maxJThisRow :: "ctx \<Rightarrow> int" where
  "maxJThisRow c = min (W_BOUND c - 1) (tokens_left_total c)"

definition token_at :: "ctx \<Rightarrow> int \<Rightarrow> string" where
  "token_at c j = tokens c ! nat (c_taken c + j)"

definition need_sep :: "ctx \<Rightarrow> int \<Rightarrow> bool" where
  "need_sep c j =
     (if c_taken c + j + 1 < n_tokens c then needs_separator (token_at c j) (token_at c (j + 1))
      else False)"

text \<open>\<^verbatim>\<open>desired_at\<close> with the vector \<^verbatim>\<open>want\<close> it reads.\<close>

definition desired_at :: "ctx \<Rightarrow> int \<Rightarrow> int" where
  "desired_at c col =
     (if 0 \<le> col \<and> col < W_BOUND c
      then (if c_row c < c_H c \<and> col < min (c_W c) (W_BOUND c) then dens01 c (c_row c) col else 0)
      else 0)"

definition density_of :: "ctx \<Rightarrow> char \<Rightarrow> int" where
  "density_of c ch = (let uch = code_of ch in if uch < 128 then char01 c uch else 1)"

definition score_char :: "ctx \<Rightarrow> int \<Rightarrow> char \<Rightarrow> int" where
  "score_char c col ch = (if desired_at c col = density_of c ch then 1 else 0)"

definition token_score :: "ctx \<Rightarrow> int \<Rightarrow> string \<Rightarrow> int" where
  "token_score c start_col tok =
     sum_list (List.map (\<lambda>t. score_char c (start_col + int t) (tok ! t)) [0 ..< length tok])"

definition comment_score :: "ctx \<Rightarrow> int \<Rightarrow> int \<Rightarrow> int" where
  "comment_score c start_col len =
     (if len \<ge> 4 then len - 4 else 0)
     + score_char c (start_col + 0) (CHR ''/'')
     + score_char c (start_col + 1) (CHR ''*'')
     + score_char c (start_col + len - 2) (CHR ''*'')
     + score_char c (start_col + len - 1) (CHR ''/'')"

subsection \<open>The table of a row and its transitions\<close>

text \<open>
  The size of the two vectors of a row, \<^verbatim>\<open>const int STATES = W_BOUND * W_BOUND * 4\<close>,
  as the number it is in the integers; \<^verbatim>\<open>int\<close> has 32 bits, and the product is
  defined in the program when it is at most \<open>INT_MAX\<close>. The loop body below ends the
  run in \<open>IntOverflow\<close> otherwise, before anything is read or written.
\<close>

definition INT_MAX :: int where
  "INT_MAX = 2147483647"

definition STATES :: "ctx \<Rightarrow> int" where
  "STATES c = W_BOUND c * W_BOUND c * 4"

text \<open>
  The flat index \<^verbatim>\<open>(i * W_BOUND + j) * 4 + k\<close>. The program computes it in \<^verbatim>\<open>int\<close>,
  at states with \<open>0 \<le> i, j < W_BOUND\<close> and \<open>0 \<le> k < 4\<close>; there it lies in
  \<open>[0, STATES)\<close>, as do the sums and products on the way (lemma \<open>IDX_in_table\<close>),
  so with \<open>STATES \<le> INT_MAX\<close> it is the number below (lemma \<open>IDX_machine\<close>).
\<close>

definition IDX :: "ctx \<Rightarrow> int \<Rightarrow> int \<Rightarrow> int \<Rightarrow> int" where
  "IDX c i j k = (i * W_BOUND c + j) * 4 + k"

text \<open>
  The vectors \<^verbatim>\<open>dp\<close> and \<^verbatim>\<open>back_point\<close>, read and written at flat indices, and the
  generator, which the tie-breaks advance. The vectors have \<open>STATES\<close> cells; they are
  functions of the index here, and the cells the program has are those at indices in
  \<open>[0, STATES)\<close>. No other cell is ever given a score (lemma \<open>solve_dp_in_table\<close>).
\<close>

record dp_state =
  dp :: "int \<Rightarrow> int"
  back_point :: "int \<Rightarrow> int \<times> int \<times> int"
  rng :: rng

definition init_dp :: "ctx \<Rightarrow> rng \<Rightarrow> dp_state" where
  "init_dp c r = \<lparr> dp = (\<lambda>_. NEG_INF)(IDX c 0 0 0 := 0), back_point = (\<lambda>_. (- 1, - 1, - 1)), rng = r \<rparr>"

text \<open>
  The update every transition ends with: \<open>tgt\<close> is the index of the target state,
  \<open>cand\<close> the candidate score and \<open>src\<close> the state the transition leaves.
\<close>

definition relax :: "int \<Rightarrow> int \<Rightarrow> int \<times> int \<times> int \<Rightarrow> dp_state \<Rightarrow> dp_state" where
  "relax tgt cand src s =
     (let ref = dp s tgt in
      if cand > ref then s \<lparr> dp := (dp s)(tgt := cand), back_point := (back_point s)(tgt := src) \<rparr>
      else if cand = ref \<and> ref \<noteq> NEG_INF then
        (case coin (rng s) of
           (x, r') \<Rightarrow> if x \<noteq> 0 then s \<lparr> back_point := (back_point s)(tgt := src), rng := r' \<rparr>
                      else s \<lparr> rng := r' \<rparr>)
      else s)"

definition space_transition :: "ctx \<Rightarrow> int \<Rightarrow> int \<Rightarrow> int \<Rightarrow> int \<Rightarrow> dp_state \<Rightarrow> dp_state" where
  "space_transition c i j k cur s =
     (if i + 1 < W_BOUND c
      then relax (IDX c (i + 1) j 0) (cur + score_char c i (CHR '' '')) (i, j, k) s
      else s)"

definition comment_transitions :: "ctx \<Rightarrow> int \<Rightarrow> int \<Rightarrow> int \<Rightarrow> int \<Rightarrow> dp_state \<Rightarrow> dp_state" where
  "comment_transitions c i j k cur s =
     (let Lmax = min MX_COMMENT_LENGTH (W_BOUND c - i - 1) in
      fold (\<lambda>L. relax (IDX c (i + L) j 1) (cur + comment_score c i L) (i, j, k)) [4 .. Lmax] s)"

definition token_transition :: "ctx \<Rightarrow> int \<Rightarrow> int \<Rightarrow> int \<Rightarrow> int \<Rightarrow> dp_state \<Rightarrow> dp_state" where
  "token_transition c i j k cur s =
     (if j < tokens_left_total c then
        if k \<noteq> 2 then
          let tok = token_at c j; L = int (length tok) in
          if i + L < W_BOUND c then
            let req_sep = (if j \<le> maxJThisRow c then need_sep c j else False);
                nk = (if req_sep then 2 else 3)
            in relax (IDX c (i + L) (j + 1) nk) (cur + token_score c i tok) (i, j, k) s
          else s
        else s
      else s)"

text \<open>The body of the three nested loops, for one state \<open>(i, j, k)\<close>.\<close>

definition expand :: "ctx \<Rightarrow> int \<Rightarrow> int \<Rightarrow> int \<Rightarrow> dp_state \<Rightarrow> dp_state" where
  "expand c i j k s =
     (let cur = dp s (IDX c i j k) in
      if cur = NEG_INF then s
      else token_transition c i j k cur
             (comment_transitions c i j k cur (space_transition c i j k cur s)))"

definition solve_dp :: "ctx \<Rightarrow> rng \<Rightarrow> dp_state" where
  "solve_dp c r =
     fold (\<lambda>i. fold (\<lambda>j. fold (\<lambda>k. expand c i j k) [0 .. 3]) [0 .. min i (tokens_left_total c)])
       [0 .. W_BOUND c - 1] (init_dp c r)"

subsection \<open>Choosing the terminal state\<close>

definition jHi :: "ctx \<Rightarrow> int" where
  "jHi c = min (tokens_left_total c) (W_BOUND c - 1)"

definition iStart :: "ctx \<Rightarrow> int" where
  "iStart c = max 0 (c_W c - shoot)"

definition SCORE_RELAXATION :: "ctx \<Rightarrow> int" where
  "SCORE_RELAXATION c = c_W c div SCORE_RELAXATION_FACTOR"

text \<open>
  A scan that keeps the first strictly best value seen, with the state that has it:
  the loops \<^verbatim>\<open>if (val > bestVal) { bestVal = val; bestState = {i, j, k}; }\<close>, with
  the extra test \<open>ok\<close> of the third one.
\<close>

definition scan_best :: "('a \<Rightarrow> int) \<Rightarrow> ('a \<Rightarrow> bool) \<Rightarrow> 'a list \<Rightarrow> int \<times> 'a \<Rightarrow> int \<times> 'a" where
  "scan_best f ok xs init =
     fold (\<lambda>x (bestVal, bestState). if ok x \<and> f x > bestVal then (f x, x) else (bestVal, bestState))
       xs init"

text \<open>The states the selection loops visit, in their order, for a floor \<open>jlo\<close> on \<open>j\<close>.\<close>

definition terminal_states :: "ctx \<Rightarrow> int \<Rightarrow> (int \<times> int \<times> int) list" where
  "terminal_states c jlo =
     [(i, j, k). i \<leftarrow> [iStart c .. W_BOUND c - 1], j \<leftarrow> [jlo .. jHi c], k \<leftarrow> [0 .. 3]]"

definition val_of :: "ctx \<Rightarrow> (int \<Rightarrow> int) \<Rightarrow> int \<times> int \<times> int \<Rightarrow> int" where
  "val_of c d = (\<lambda>(i, j, k). d (IDX c i j k))"

definition any_state :: "ctx \<Rightarrow> (int \<Rightarrow> int) \<Rightarrow> int \<Rightarrow> bool" where
  "any_state c d minTok = list_ex (\<lambda>x. val_of c d x \<noteq> NEG_INF) (terminal_states c (max 0 minTok))"

definition best_state :: "ctx \<Rightarrow> (int \<Rightarrow> int) \<Rightarrow> int \<Rightarrow> int \<times> (int \<times> int \<times> int)" where
  "best_state c d minTok =
     scan_best (val_of c d) (\<lambda>_. True) (terminal_states c (max 0 minTok)) (NEG_INF, (0, 0, 0))"

definition best_at_j :: "ctx \<Rightarrow> (int \<Rightarrow> int) \<Rightarrow> int \<Rightarrow> int \<Rightarrow> int \<times> (int \<times> int \<times> int)" where
  "best_at_j c d threshold j =
     scan_best (val_of c d) (\<lambda>x. val_of c d x \<ge> threshold)
       [(i, j, k). i \<leftarrow> [iStart c .. W_BOUND c - 1], k \<leftarrow> [0 .. 3]] (NEG_INF, (0, 0, 0))"

text \<open>The loop over \<open>j\<close> from \<open>jHi\<close> down, left at the first \<open>j\<close> that has a candidate.\<close>

fun pick_max_j ::
  "ctx \<Rightarrow> (int \<Rightarrow> int) \<Rightarrow> int \<Rightarrow> int \<times> int \<times> int \<Rightarrow> int list \<Rightarrow> int \<times> int \<times> int" where
  "pick_max_j c d threshold chosen [] = chosen"
| "pick_max_j c d threshold chosen (j # js) =
     (case best_at_j c d threshold j of
        (bestAtJ, cand) \<Rightarrow> if bestAtJ \<noteq> NEG_INF then cand else pick_max_j c d threshold chosen js)"

definition select_at :: "ctx \<Rightarrow> (int \<Rightarrow> int) \<Rightarrow> int \<Rightarrow> int \<times> int \<times> int" where
  "select_at c d minTok =
     (case best_state c d minTok of
        (bestVal, bestState) \<Rightarrow>
          pick_max_j c d (bestVal - SCORE_RELAXATION c) bestState (rev [max 0 minTok .. jHi c]))"

text \<open>The loop over \<open>minTok\<close>, downwards, left at the first tier that has a state.\<close>

fun select_tiers :: "ctx \<Rightarrow> (int \<Rightarrow> int) \<Rightarrow> int list \<Rightarrow> (int \<times> int \<times> int) option" where
  "select_tiers c d [] = None"
| "select_tiers c d (minTok # rest) =
     (if any_state c d minTok then Some (select_at c d minTok) else select_tiers c d rest)"

definition optimal_state :: "ctx \<Rightarrow> (int \<Rightarrow> int) \<Rightarrow> int \<times> int \<times> int" where
  "optimal_state c d =
     (case select_tiers c d (rev [0 .. min MN_TOKENS (tokens_left_total c)]) of
        Some chosen \<Rightarrow> chosen
      | None \<Rightarrow> snd (best_state c d 0))"

subsection \<open>Reconstruction of a row\<close>

text \<open>
  What a transition writes: a space, a comment, or a token. A row is the list of
  its segments from left to right; the text of the row is their concatenation.
\<close>

datatype blob = Space | Comment string | Tok string

fun blob_text :: "blob \<Rightarrow> string" where
  "blob_text Space = [CHR '' '']"
| "blob_text (Comment s) = s"
| "blob_text (Tok t) = t"

definition row_text :: "blob list \<Rightarrow> string" where
  "row_text bs = concat (List.map blob_text bs)"

text \<open>
  The characters of a comment of length \<open>len\<close> that starts in column \<open>p_i\<close>, for
  \<open>t\<close> from \<open>0\<close> up; the filler letters advance the generator.
\<close>

definition comment_char :: "ctx \<Rightarrow> int \<Rightarrow> int \<Rightarrow> int \<Rightarrow> rng \<Rightarrow> char \<times> rng" where
  "comment_char c p_i len t r =
     (let col = p_i + t in
      if t = 0 then (CHR ''/'', r)
      else if t = 1 then (CHR ''*'', r)
      else if t = len - 2 then (CHR ''*'', r)
      else if t = len - 1 then (CHR ''/'', r)
      else
        let wantbit = (if c_row c < c_H c \<and> col < c_W c then dens01 c (c_row c) col else 0)
        in if wantbit = 0 then (CHR '' '', r) else rand_character r)"

definition comment_seg :: "ctx \<Rightarrow> int \<Rightarrow> int \<Rightarrow> rng \<Rightarrow> string \<times> rng" where
  "comment_seg c p_i len r =
     fold (\<lambda>t (seg, r). case comment_char c p_i len t r of (ch, r') \<Rightarrow> (seg @ [ch], r'))
       [0 .. len - 1] ([], r)"

text \<open>
  The loop \<^verbatim>\<open>while (ci > 0 || cj > 0)\<close> that follows the back-pointers. Nothing in
  its text bounds it, so it is a partial function: \<open>None\<close> is a walk that never ends.
\<close>

partial_function (option) walk ::
  "ctx \<Rightarrow> (int \<Rightarrow> int \<times> int \<times> int) \<Rightarrow> int \<times> int \<times> int \<Rightarrow> blob list \<Rightarrow> rng
     \<Rightarrow> (blob list \<times> rng) option" where
  "walk c bp cur this_row r =
     (case cur of (ci, cj, ck) \<Rightarrow>
        if ci > 0 \<or> cj > 0 then
          (case bp (IDX c ci cj ck) of (p_i, p_j, p_k) \<Rightarrow>
             if p_i < 0 then Some (this_row, r)
             else if ck = 0 then walk c bp (p_i, p_j, p_k) (Space # this_row) r
             else if ck = 1 then
               (case comment_seg c p_i (if ci - p_i < 4 then 4 else ci - p_i) r of
                  (seg, r') \<Rightarrow> walk c bp (p_i, p_j, p_k) (Comment seg # this_row) r')
             else
               walk c bp (p_i, p_j, p_k)
                 (Tok (if p_j \<ge> 0 \<and> p_j < W_BOUND c \<and> c_taken c + p_j < n_tokens c
                       then token_at c p_j else []) # this_row) r)
        else Some (this_row, r))"

declare walk.simps [code]

text \<open>
  One image row: the table, the terminal state, the row rebuilt from it, and the
  number of tokens it takes.
\<close>

definition solve_row :: "ctx \<Rightarrow> rng \<Rightarrow> (blob list \<times> int \<times> rng) option" where
  "solve_row c r =
     (let s = solve_dp c r;
          optimal = optimal_state c (dp s)
      in case walk c (back_point s) optimal [] (rng s) of
           None \<Rightarrow> None
         | Some (this_row, r') \<Rightarrow> Some (this_row, fst (snd optimal), r'))"

subsection \<open>Overflow tail\<close>

text \<open>
  The inner loop \<^verbatim>\<open>while (taken < n)\<close> of an overflow line; it returns the line
  and the new value of \<open>taken\<close>.
\<close>

function overflow_loop ::
  "string list \<Rightarrow> int \<Rightarrow> int \<Rightarrow> blob list \<Rightarrow> int \<Rightarrow> string \<Rightarrow> blob list \<times> int" where
  "overflow_loop toks W_eff taken line col prev =
     (if taken < int (length toks) then
        let tok = toks ! nat taken;
            sep = (if prev \<noteq> [] \<and> needs_separator prev tok then 1 else 0);
            L = sep + int (length tok);
            placed = line @ (if sep \<noteq> 0 then [Space] else []) @ [Tok tok]
        in if col + L > W_eff then
             (if col = 0 then (placed, taken + 1) else (line, taken))
           else overflow_loop toks W_eff (taken + 1) placed (col + sep + int (length tok)) tok
      else (line, taken))"
  by pat_completeness auto

termination
  by (relation "measure (\<lambda>(toks, W_eff, taken, line, col, prev). nat (int (length toks) - taken))")
     auto

subsection \<open>The loop of \<^verbatim>\<open>convert_layout\<close>\<close>

record loop_state =
  taken :: int
  row :: int
  waifu :: "blob list list"
  gen :: rng

definition row_ctx ::
  "string list \<Rightarrow> int \<Rightarrow> int \<Rightarrow> real list list \<Rightarrow> AsciiDensity \<Rightarrow> loop_state \<Rightarrow> ctx" where
  "row_ctx toks W H target_density density_map st =
     \<lparr> tokens = toks, c_W = W, c_H = H,
       dens01 = (\<lambda>r c. is_one (target_density ! nat r ! nat c)),
       char01 = (\<lambda>c. is_one (if c < length (v density_map) then v density_map ! c else 1)),
       c_row = row st, c_taken = taken st \<rparr>"

text \<open>
  One round of \<^verbatim>\<open>while (taken < n or row < H)\<close>. \<open>None\<close> is a round that does not
  return. An image row starts with \<^verbatim>\<open>const int STATES = W_BOUND * W_BOUND * 4\<close>: when
  that product is above \<open>INT_MAX\<close> the round, and the run, ends in \<open>IntOverflow\<close>.
\<close>

definition loop_body ::
  "string list \<Rightarrow> int \<Rightarrow> int \<Rightarrow> real list list \<Rightarrow> AsciiDensity \<Rightarrow> loop_state
     \<Rightarrow> (error + loop_state) option" where
  "loop_body toks W H target_density density_map st =
     (if row st \<ge> H then
        (case w_extra_dist (gen st) of
           (x, r') \<Rightarrow>
             (case overflow_loop toks (W + x) (taken st) [] 0 [] of
                (line, taken') \<Rightarrow>
                  Some (Inr \<lparr> taken = taken', row = row st + 1, waifu = waifu st @ [line],
                              gen = r' \<rparr>)))
      else if INT_MAX < STATES (row_ctx toks W H target_density density_map st) then
        Some (Inl IntOverflow)
      else
        (case solve_row (row_ctx toks W H target_density density_map st) (gen st) of
           None \<Rightarrow> None
         | Some (this_row, j, r') \<Rightarrow>
             Some (Inr \<lparr> taken = taken st + j, row = row st + 1, waifu = waifu st @ [this_row],
                         gen = r' \<rparr>)))"

text \<open>
  Two facts the loop's termination rests on: the terminal state chosen never has a
  negative token count, and an overflow line started with a token left takes one.
\<close>

lemma scan_best_cases:
  "(scan_best f ok xs (b, s) = (b, s) \<and> (\<forall>x \<in> set xs. ok x \<longrightarrow> f x \<le> b))
   \<or> (\<exists>x \<in> set xs. scan_best f ok xs (b, s) = (f x, x) \<and> ok x \<and> f x > b
          \<and> (\<forall>y \<in> set xs. ok y \<longrightarrow> f y \<le> f x))"
proof (induction xs arbitrary: b s)
  case Nil
  show ?case by (simp add: scan_best_def)
next
  case (Cons x xs)
  have step: "scan_best f ok (x # xs) (b, s)
      = scan_best f ok xs (if ok x \<and> f x > b then (f x, x) else (b, s))"
    by (simp add: scan_best_def)
  show ?case
  proof (cases "ok x \<and> f x > b")
    case True
    with step have e: "scan_best f ok (x # xs) (b, s) = scan_best f ok xs (f x, x)" by simp
    from Cons.IH [of "f x" x] show ?thesis
    proof
      assume "scan_best f ok xs (f x, x) = (f x, x) \<and> (\<forall>y \<in> set xs. ok y \<longrightarrow> f y \<le> f x)"
      with e True show ?thesis by auto
    next
      assume "\<exists>y \<in> set xs. scan_best f ok xs (f x, x) = (f y, y) \<and> ok y \<and> f y > f x
          \<and> (\<forall>z \<in> set xs. ok z \<longrightarrow> f z \<le> f y)"
      then obtain y where y: "y \<in> set xs" "scan_best f ok xs (f x, x) = (f y, y)" "ok y"
        "f y > f x" "\<forall>z \<in> set xs. ok z \<longrightarrow> f z \<le> f y" by blast
      have "\<exists>y \<in> set (x # xs). scan_best f ok (x # xs) (b, s) = (f y, y) \<and> ok y \<and> f y > b
          \<and> (\<forall>z \<in> set (x # xs). ok z \<longrightarrow> f z \<le> f y)"
      proof (rule bexI [of _ y])
        show "y \<in> set (x # xs)" using y(1) by simp
        show "scan_best f ok (x # xs) (b, s) = (f y, y) \<and> ok y \<and> f y > b
          \<and> (\<forall>z \<in> set (x # xs). ok z \<longrightarrow> f z \<le> f y)"
          using y e True by auto
      qed
      then show ?thesis by (rule disjI2)
    qed
  next
    case False
    with step have e: "scan_best f ok (x # xs) (b, s) = scan_best f ok xs (b, s)" by simp
    from Cons.IH [of b s] show ?thesis
    proof
      assume "scan_best f ok xs (b, s) = (b, s) \<and> (\<forall>y \<in> set xs. ok y \<longrightarrow> f y \<le> b)"
      with e False show ?thesis by auto
    next
      assume "\<exists>y \<in> set xs. scan_best f ok xs (b, s) = (f y, y) \<and> ok y \<and> f y > b
          \<and> (\<forall>z \<in> set xs. ok z \<longrightarrow> f z \<le> f y)"
      then obtain y where y: "y \<in> set xs" "scan_best f ok xs (b, s) = (f y, y)" "ok y"
        "f y > b" "\<forall>z \<in> set xs. ok z \<longrightarrow> f z \<le> f y" by blast
      have "\<exists>y \<in> set (x # xs). scan_best f ok (x # xs) (b, s) = (f y, y) \<and> ok y \<and> f y > b
          \<and> (\<forall>z \<in> set (x # xs). ok z \<longrightarrow> f z \<le> f y)"
      proof (rule bexI [of _ y])
        show "y \<in> set (x # xs)" using y(1) by simp
        show "scan_best f ok (x # xs) (b, s) = (f y, y) \<and> ok y \<and> f y > b
          \<and> (\<forall>z \<in> set (x # xs). ok z \<longrightarrow> f z \<le> f y)"
          using y e False by auto
      qed
      then show ?thesis by (rule disjI2)
    qed
  qed
qed

lemma scan_best_state:
  "snd (scan_best f ok xs (b, s)) = s \<or> snd (scan_best f ok xs (b, s)) \<in> set xs"
  using scan_best_cases [of f ok xs b s] by auto

lemma terminal_states_j: "(i, j, k) \<in> set (terminal_states c jlo) \<Longrightarrow> jlo \<le> j \<and> j \<le> jHi c"
  by (auto simp: terminal_states_def)

lemma best_state_j: "0 \<le> fst (snd (snd (best_state c d minTok)))"
proof -
  let ?r = "snd (best_state c d minTok)"
  have "?r = (0, 0, 0) \<or> ?r \<in> set (terminal_states c (max 0 minTok))"
    unfolding best_state_def by (rule scan_best_state)
  then show ?thesis
  proof
    assume "?r = (0, 0, 0)" then show ?thesis by simp
  next
    assume h: "?r \<in> set (terminal_states c (max 0 minTok))"
    obtain i j k where r: "?r = (i, j, k)" by (cases ?r) auto
    with h have "max 0 minTok \<le> j" using terminal_states_j by metis
    with r show ?thesis by simp
  qed
qed

lemma best_at_j_j:
  "best_at_j c d threshold j = (b, cand) \<Longrightarrow> b \<noteq> NEG_INF \<Longrightarrow> fst (snd cand) = j"
proof -
  assume h: "best_at_j c d threshold j = (b, cand)" and b: "b \<noteq> NEG_INF"
  let ?xs = "[(i, j, k). i \<leftarrow> [iStart c .. W_BOUND c - 1], k \<leftarrow> [0 .. 3]]"
  from scan_best_cases [of "val_of c d" "\<lambda>x. val_of c d x \<ge> threshold" ?xs NEG_INF "(0, 0, 0)"]
  have "cand \<in> set ?xs" using h b unfolding best_at_j_def by auto
  then show ?thesis by auto
qed

lemma pick_max_j_j:
  "0 \<le> fst (snd chosen) \<Longrightarrow> \<forall>j \<in> set js. 0 \<le> j
    \<Longrightarrow> 0 \<le> fst (snd (pick_max_j c d threshold chosen js))"
proof (induction js)
  case Nil
  then show ?case by simp
next
  case (Cons j js)
  obtain b cand where bc: "best_at_j c d threshold j = (b, cand)"
    by (cases "best_at_j c d threshold j")
  show ?case
  proof (cases "b \<noteq> NEG_INF")
    case True
    with bc have "fst (snd cand) = j" by (rule best_at_j_j)
    with True bc Cons.prems show ?thesis by simp
  next
    case False
    with bc Cons show ?thesis by simp
  qed
qed

lemma select_at_j: "0 \<le> fst (snd (select_at c d minTok))"
proof -
  obtain b s where bs: "best_state c d minTok = (b, s)" by (cases "best_state c d minTok")
  have "0 \<le> fst (snd s)" using best_state_j [of c d minTok] bs by simp
  then have "0 \<le> fst (snd (pick_max_j c d (b - SCORE_RELAXATION c) s (rev [max 0 minTok .. jHi c])))"
    by (rule pick_max_j_j) auto
  with bs show ?thesis by (simp add: select_at_def)
qed

lemma select_tiers_j: "select_tiers c d ms = Some chosen \<Longrightarrow> 0 \<le> fst (snd chosen)"
  by (induction ms) (auto simp: select_at_j split: if_splits)

lemma optimal_state_j: "0 \<le> fst (snd (optimal_state c d))"
  unfolding optimal_state_def
  by (auto simp: best_state_j dest: select_tiers_j split: option.splits)

lemma solve_row_j: "solve_row c r = Some (this_row, j, r') \<Longrightarrow> 0 \<le> j"
  by (auto simp: solve_row_def Let_def optimal_state_j split: option.splits)

lemma overflow_loop_mono: "tk \<le> snd (overflow_loop toks W_eff tk line col prev)"
proof (induction toks W_eff tk line col prev rule: overflow_loop.induct)
  case (1 toks W_eff tk line col prev)
  show ?case
  proof (cases "tk < int (length toks)")
    case False
    then show ?thesis by simp
  next
    case True
    let ?tok = "toks ! nat tk"
    let ?sep = "if prev \<noteq> [] \<and> needs_separator prev ?tok then 1 else 0 :: int"
    let ?placed = "line @ (if ?sep \<noteq> 0 then [Space] else []) @ [Tok ?tok]"
    show ?thesis
    proof (cases "col + (?sep + int (length ?tok)) > W_eff")
      case big: True
      with True show ?thesis by (subst overflow_loop.simps) (simp add: Let_def)
    next
      case small: False
      have "tk + 1 \<le> snd (overflow_loop toks W_eff (tk + 1) ?placed
                (col + ?sep + int (length ?tok)) ?tok)"
        using "1.IH" [OF True refl refl refl refl] small by simp
      moreover have "overflow_loop toks W_eff tk line col prev
          = overflow_loop toks W_eff (tk + 1) ?placed (col + ?sep + int (length ?tok)) ?tok"
        using True small by (subst overflow_loop.simps) (simp add: Let_def)
      ultimately show ?thesis by simp
    qed
  qed
qed

lemma overflow_loop_progress:
  "tk < int (length toks) \<Longrightarrow> tk < snd (overflow_loop toks W_eff tk line 0 prev)"
proof -
  assume True: "tk < int (length toks)"
  let ?tok = "toks ! nat tk"
  let ?sep = "if prev \<noteq> [] \<and> needs_separator prev ?tok then 1 else 0 :: int"
  let ?placed = "line @ (if ?sep \<noteq> 0 then [Space] else []) @ [Tok ?tok]"
  show ?thesis
  proof (cases "0 + (?sep + int (length ?tok)) > W_eff")
    case True2: True
    with True show ?thesis by (subst overflow_loop.simps) (simp add: Let_def)
  next
    case small: False
    have "tk + 1 \<le> snd (overflow_loop toks W_eff (tk + 1) ?placed
              (0 + ?sep + int (length ?tok)) ?tok)"
      by (rule overflow_loop_mono)
    moreover have "overflow_loop toks W_eff tk line 0 prev
        = overflow_loop toks W_eff (tk + 1) ?placed (0 + ?sep + int (length ?tok)) ?tok"
      using True small by (subst overflow_loop.simps) (simp add: Let_def)
    ultimately show ?thesis by simp
  qed
qed

lemma loop_body_measure:
  assumes "taken st < int (length toks) \<or> row st < H"
    and "loop_body toks W H target_density density_map st = Some (Inr st')"
  shows "nat (H - row st') + nat (int (length toks) - taken st')
       < nat (H - row st) + nat (int (length toks) - taken st)"
proof (cases "row st \<ge> H")
  case True
  with assms(1) have t: "taken st < int (length toks)" by simp
  obtain x r' where xr: "w_extra_dist (gen st) = (x, r')" by (cases "w_extra_dist (gen st)")
  obtain line t' where lt: "overflow_loop toks (W + x) (taken st) [] 0 [] = (line, t')"
    by (cases "overflow_loop toks (W + x) (taken st) [] 0 []")
  from overflow_loop_progress [OF t, of "W + x" "[]" "[]"] lt have "taken st < t'" by simp
  moreover from assms(2) True xr lt have "taken st' = t'" "row st' = row st + 1"
    by (auto simp: loop_body_def)
  ultimately show ?thesis using True t by simp
next
  case False
  with assms(2) obtain this_row j r' where
    sr: "solve_row (row_ctx toks W H target_density density_map st) (gen st) = Some (this_row, j, r')"
    and st': "taken st' = taken st + j" "row st' = row st + 1"
    by (auto simp: loop_body_def split: option.splits if_splits)
  from sr have "0 \<le> j" by (rule solve_row_j)
  with st' False show ?thesis by simp
qed

function layout_loop ::
  "string list \<Rightarrow> int \<Rightarrow> int \<Rightarrow> real list list \<Rightarrow> AsciiDensity \<Rightarrow> loop_state
     \<Rightarrow> (error + loop_state) option" where
  "layout_loop toks W H target_density density_map st =
     (if taken st < int (length toks) \<or> row st < H then
        (case loop_body toks W H target_density density_map st of
           None \<Rightarrow> None
         | Some (Inl e) \<Rightarrow> Some (Inl e)
         | Some (Inr st') \<Rightarrow> layout_loop toks W H target_density density_map st')
      else Some (Inr st))"
  by pat_completeness auto

termination
proof (relation "measure (\<lambda>(toks, W, H, target_density, density_map, st).
        nat (H - row st) + nat (int (length toks) - taken st))", goal_cases)
  case 1
  show ?case by simp
next
  case (2 toks W H target_density density_map st res st')
  then show ?case
    using loop_body_measure [of st toks H W target_density density_map st'] by simp
qed

text \<open>
  The states at the head of the loop, one per test of its condition, the last one
  being the state the loop is left in (or the state of a round that does not return,
  or ends the run).
\<close>

function layout_trace ::
  "string list \<Rightarrow> int \<Rightarrow> int \<Rightarrow> real list list \<Rightarrow> AsciiDensity \<Rightarrow> loop_state
     \<Rightarrow> loop_state list" where
  "layout_trace toks W H target_density density_map st =
     (if taken st < int (length toks) \<or> row st < H then
        (case loop_body toks W H target_density density_map st of
           None \<Rightarrow> [st]
         | Some (Inl e) \<Rightarrow> [st]
         | Some (Inr st') \<Rightarrow> st # layout_trace toks W H target_density density_map st')
      else [st])"
  by pat_completeness auto

termination
proof (relation "measure (\<lambda>(toks, W, H, target_density, density_map, st).
        nat (H - row st) + nat (int (length toks) - taken st))", goal_cases)
  case 1
  show ?case by simp
next
  case (2 toks W H target_density density_map st res st')
  then show ?case
    using loop_body_measure [of st toks H W target_density density_map st'] by simp
qed

text \<open>The text of the output: every row followed by a newline.\<close>

definition render :: "blob list list \<Rightarrow> string" where
  "render rows = concat (List.map (\<lambda>l. row_text l @ [CHR 0x0A]) rows)"

text \<open>The cursor and the output before the first round.\<close>

definition initial_state :: "rng \<Rightarrow> loop_state" where
  "initial_state seed = \<lparr> taken = 0, row = 0, waifu = [], gen = seed \<rparr>"

text \<open>
  \<^verbatim>\<open>convert_layout\<close>. \<open>None\<close> is a run that does not return; \<open>Inl\<close> is the failed
  \<^verbatim>\<open>assert\<close>, the exception of \<^verbatim>\<open>dens01.assign(H, ...)\<close> on a negative \<open>H\<close>, or
  the overflow of the table size in an image row.
  \<^verbatim>\<open>target_density[r][c]\<close> is read for every \<open>r < H\<close> and \<open>c < W\<close>: the grid is
  taken to have these cells.
\<close>

definition convert_layout ::
  "string list \<Rightarrow> int \<Rightarrow> int \<Rightarrow> real list list \<Rightarrow> AsciiDensity \<Rightarrow> rng \<Rightarrow> (error + string) option"
  where
  "convert_layout toks W H target_density density_map seed =
     (let maxl = fold (\<lambda>t maxl. max maxl (int (length t))) toks 0 in
      if \<not> (max min_width maxl < W + shoot) then Some (Inl AssertionFailed)
      else if H < 0 then Some (Inl LengthError)
      else
        (case layout_loop toks W H target_density density_map (initial_state seed) of
           None \<Rightarrow> None
         | Some (Inl e) \<Rightarrow> Some (Inl e)
         | Some (Inr st) \<Rightarrow> Some (Inr (render (waifu st)))))"

section \<open>Command line\<close>

record Args =
  arg_code :: string
  arg_art :: string
  arg_out :: string
  arg_width :: "int option"
  arg_height :: "int option"
  dump_meta :: bool

definition default_args :: Args where
  "default_args = \<lparr> arg_code = [], arg_art = [], arg_out = [], arg_width = None,
     arg_height = None, dump_meta = False \<rparr>"

text \<open>The digit loop of \<^verbatim>\<open>parse_int\<close>: \<open>None\<close> is its \<^verbatim>\<open>return false\<close>.\<close>

fun parse_digits :: "int \<Rightarrow> string \<Rightarrow> int option" where
  "parse_digits acc [] = Some acc"
| "parse_digits acc (ch # r) =
     (if code_of ch < 48 \<or> code_of ch > 57 then None
      else let acc' = acc * 10 + (int (code_of ch) - 48)
           in if acc' > 1000000000 then None else parse_digits acc' r)"

definition parse_int :: "string \<Rightarrow> int option" where
  "parse_int s =
     (if s = [] then None
      else let neg = (s ! 0 = CHR ''-'')
           in case parse_digits 0 (if neg then drop 1 s else s) of
                None \<Rightarrow> None
              | Some acc \<Rightarrow> Some (if neg then - acc else acc))"

text \<open>
  What \<^verbatim>\<open>parse_args\<close> ends with: \<^verbatim>\<open>return false\<close>, the \<^verbatim>\<open>std::exit(0)\<close> of
  \<^verbatim>\<open>--help\<close>, or \<^verbatim>\<open>return true\<close> with the arguments read.
\<close>

datatype parsed = BadArgs | HelpExit | Parsed Args

text \<open>The loop of \<^verbatim>\<open>parse_args\<close> on the arguments from index \<open>i\<close>.\<close>

fun parse_args_loop :: "string list \<Rightarrow> Args \<Rightarrow> parsed" where
  "parse_args_loop [] a =
     (if arg_code a = [] \<or> arg_art a = [] \<or> arg_out a = [] then BadArgs else Parsed a)"
| "parse_args_loop (key # rest) a =
     (if key = ''--code'' then
        (case rest of [] \<Rightarrow> BadArgs | x # rest' \<Rightarrow> parse_args_loop rest' (a \<lparr> arg_code := x \<rparr>))
      else if key = ''--art'' then
        (case rest of [] \<Rightarrow> BadArgs | x # rest' \<Rightarrow> parse_args_loop rest' (a \<lparr> arg_art := x \<rparr>))
      else if key = ''--out'' then
        (case rest of [] \<Rightarrow> BadArgs | x # rest' \<Rightarrow> parse_args_loop rest' (a \<lparr> arg_out := x \<rparr>))
      else if key = ''--width'' then
        (case rest of [] \<Rightarrow> BadArgs
         | x # rest' \<Rightarrow>
             (case parse_int x of None \<Rightarrow> BadArgs
              | Some n \<Rightarrow> parse_args_loop rest' (a \<lparr> arg_width := Some n \<rparr>)))
      else if key = ''--height'' then
        (case rest of [] \<Rightarrow> BadArgs
         | x # rest' \<Rightarrow>
             (case parse_int x of None \<Rightarrow> BadArgs
              | Some n \<Rightarrow> parse_args_loop rest' (a \<lparr> arg_height := Some n \<rparr>)))
      else if key = ''--dump-meta'' then parse_args_loop rest (a \<lparr> dump_meta := True \<rparr>)
      else if key = ''-h'' \<or> key = ''--help'' then HelpExit
      else BadArgs)"

definition parse_args :: "string list \<Rightarrow> parsed" where
  "parse_args argv = parse_args_loop (drop 1 argv) default_args"

text \<open>
  The file system the program runs in: the content of every file that can be opened
  for reading, and the paths \<^verbatim>\<open>std::ofstream\<close> can open for writing (after the
  attempt to create the parent directories).
\<close>

record world =
  files :: "string \<Rightarrow> string option"
  writable :: "string \<Rightarrow> bool"

definition read_file :: "world \<Rightarrow> string \<Rightarrow> string" where
  "read_file w path = (case files w path of None \<Rightarrow> [] | Some data \<Rightarrow> data)"

text \<open>
  How a run of \<^verbatim>\<open>main\<close> ends: with an exit code, and the path and content written
  when there is one; or in \<^verbatim>\<open>abort\<close>, by the failed assertion or by an exception
  nobody catches.
\<close>

datatype outcome = Exited int "(string \<times> string) option" | Aborted error

definition main :: "string list \<Rightarrow> world \<Rightarrow> rng \<Rightarrow> outcome option" where
  "main argv w seed =
     (case parse_args argv of
        BadArgs \<Rightarrow> Some (Exited 2 None)
      | HelpExit \<Rightarrow> Some (Exited 0 None)
      | Parsed args \<Rightarrow>
          let code_text = read_file w (arg_code args);
              art_text = read_file w (arg_art args);
              code_nc = strip_comments_preserve_literals code_text;
              toks = tokenize_minimal_cpp code_nc;
              dmap = default_ascii_density_01
          in case parse_art_to_density art_text (arg_width args) (arg_height args) (Some dmap) of
               Inl e \<Rightarrow> Some (Aborted e)
             | Inr art \<Rightarrow>
                 (case convert_layout toks (art_W art) (art_H art) (density art) dmap seed of
                    None \<Rightarrow> None
                  | Some (Inl e) \<Rightarrow> Some (Aborted e)
                  | Some (Inr output_code) \<Rightarrow>
                      if \<not> writable w (arg_out args) then Some (Exited 3 None)
                      else Some (Exited 0 (Some (arg_out args, output_code)))))"

section \<open>Notions the properties are stated with\<close>

text \<open>
  The states of a row's table: \<open>i\<close> columns filled, \<open>j\<close> tokens placed in them, the
  last segment of kind \<open>k\<close>. With tokens that are not empty, \<open>j \<le> i\<close>.
\<close>

definition valid :: "ctx \<Rightarrow> int \<Rightarrow> int \<Rightarrow> int \<Rightarrow> bool" where
  "valid c i j k =
     (0 \<le> i \<and> i < W_BOUND c \<and> 0 \<le> j \<and> j \<le> i \<and> j \<le> tokens_left_total c \<and> 0 \<le> k \<and> k < 4)"

text \<open>A transition of the table from the state \<open>p\<close> to the state \<open>t\<close>.\<close>

definition step :: "ctx \<Rightarrow> int \<times> int \<times> int \<Rightarrow> int \<times> int \<times> int \<Rightarrow> bool" where
  "step c p t =
     (case p of (p_i, p_j, p_k) \<Rightarrow> case t of (i, j, k) \<Rightarrow>
        (k = 0 \<and> i = p_i + 1 \<and> j = p_j)
        \<or> (k = 1 \<and> j = p_j \<and> 4 \<le> i - p_i)
        \<or> ((k = 2 \<or> k = 3) \<and> j = p_j + 1 \<and> p_j < tokens_left_total c \<and> p_k \<noteq> 2
             \<and> i = p_i + int (length (token_at c p_j)) \<and> (k = 2) = need_sep c p_j))"

text \<open>
  The invariant of the table while it is filled: a score is \<open>NEG_INF\<close> or not
  negative; only states are ever reached; and the back-pointer of a reached state
  other than the start is a reached state one transition before it.
\<close>

definition dp_inv :: "ctx \<Rightarrow> dp_state \<Rightarrow> bool" where
  "dp_inv c s =
     ((\<forall>x. dp s x = NEG_INF \<or> 0 \<le> dp s x)
      \<and> (\<forall>x. dp s x \<noteq> NEG_INF \<longrightarrow> (\<exists>i j k. valid c i j k \<and> x = IDX c i j k))
      \<and> (\<forall>i j k. valid c i j k \<and> dp s (IDX c i j k) \<noteq> NEG_INF \<and> (i, j, k) \<noteq> (0, 0, 0)
            \<longrightarrow> (case back_point s (IDX c i j k) of
                   (p_i, p_j, p_k) \<Rightarrow>
                     valid c p_i p_j p_k \<and> dp s (IDX c p_i p_j p_k) \<noteq> NEG_INF
                     \<and> step c (p_i, p_j, p_k) (i, j, k))))"

text \<open>
  What expanding a reached state leaves in the table: the state one space further
  scores no less, and the state one five-column comment further scores more.
\<close>

definition expanded :: "ctx \<Rightarrow> dp_state \<Rightarrow> int \<Rightarrow> int \<Rightarrow> int \<Rightarrow> bool" where
  "expanded c s i j k =
     (dp s (IDX c i j k) \<noteq> NEG_INF \<longrightarrow>
        (i + 1 < W_BOUND c \<longrightarrow> dp s (IDX c i j k) \<le> dp s (IDX c (i + 1) j 0))
        \<and> (i + 5 < W_BOUND c \<longrightarrow> dp s (IDX c i j k) + 1 \<le> dp s (IDX c (i + 5) j 1)))"

text \<open>
  The setting of the claims about a row: the assertion of \<^verbatim>\<open>convert_layout\<close> holds,
  no token is empty, and the cursor is in range.
\<close>

definition row_ok :: "ctx \<Rightarrow> bool" where
  "row_ok c =
     (min_width < W_BOUND c
      \<and> (\<forall>t \<in> set (tokens c). t \<noteq> [] \<and> int (length t) < W_BOUND c)
      \<and> 0 \<le> c_taken c \<and> c_taken c \<le> n_tokens c)"

text \<open>
  What the transitions out of a state in column \<open>i\<close> do to the table, from \<open>s\<close> to
  \<open>s'\<close>: the invariant is kept, no score decreases, and no state in a column up to
  \<open>i\<close> changes its score.
\<close>

definition moves :: "ctx \<Rightarrow> int \<Rightarrow> dp_state \<Rightarrow> dp_state \<Rightarrow> bool" where
  "moves c i s s' =
     (dp_inv c s' \<and> (\<forall>x. dp s x \<le> dp s' x)
      \<and> (\<forall>i' j' k'. valid c i' j' k' \<and> i' \<le> i \<longrightarrow> dp s' (IDX c i' j' k') = dp s (IDX c i' j' k')))"

text \<open>The states in the order the three loops visit them.\<close>

definition order :: "ctx \<Rightarrow> (int \<times> int \<times> int) list" where
  "order c =
     [(i, j, k). i \<leftarrow> [0 .. W_BOUND c - 1], j \<leftarrow> [0 .. min i (tokens_left_total c)], k \<leftarrow> [0 .. 3]]"

text \<open>
  A terminal state the selection may return: it is reached, and no terminal state
  with the same number of tokens scores more.
\<close>

definition good :: "ctx \<Rightarrow> (int \<Rightarrow> int) \<Rightarrow> int \<times> int \<times> int \<Rightarrow> bool" where
  "good c d x =
     (case x of (i, j, k) \<Rightarrow>
        iStart c \<le> i \<and> i < W_BOUND c \<and> 0 \<le> j \<and> j \<le> jHi c \<and> 0 \<le> k \<and> k \<le> 3
        \<and> d (IDX c i j k) \<noteq> NEG_INF
        \<and> (\<forall>i' k'. iStart c \<le> i' \<and> i' < W_BOUND c \<and> 0 \<le> k' \<and> k' \<le> 3
              \<longrightarrow> d (IDX c i' j k') \<le> d (IDX c i j k)))"

text \<open>
  Rows as lists of segments: the tokens of a row in order, and the property that no
  two tokens stand side by side where \<^verbatim>\<open>needs_separator\<close> asks for a separator.
\<close>

fun toks_of :: "blob list \<Rightarrow> string list" where
  "toks_of [] = []"
| "toks_of (Tok t # bs) = t # toks_of bs"
| "toks_of (_ # bs) = toks_of bs"

definition adjacent_ok :: "blob list \<Rightarrow> bool" where
  "adjacent_ok bs =
     (\<forall>m a b. Suc m < length bs \<and> bs ! m = Tok a \<and> bs ! Suc m = Tok b \<longrightarrow> \<not> needs_separator a b)"

text \<open>
  A segment of a row over the tokens \<open>ts\<close>: one of the tokens, a space, or a comment
  that is not empty and has no newline in it.
\<close>

fun blob_over :: "string list \<Rightarrow> blob \<Rightarrow> bool" where
  "blob_over ts (Tok t) = (t \<in> set ts)"
| "blob_over ts Space = True"
| "blob_over ts (Comment s) = (s \<noteq> [] \<and> CHR 0x0A \<notin> set s)"


text \<open>The target grid has \<open>H\<close> rows of \<open>W\<close> cells.\<close>

definition grid_ok :: "int \<Rightarrow> int \<Rightarrow> real list list \<Rightarrow> bool" where
  "grid_ok W H target_density =
     (int (length target_density) = H \<and> list_all (\<lambda>r. int (length r) = W) target_density)"

text \<open>
  The precondition of \<^verbatim>\<open>convert_layout\<close>: its assertion
  \<^verbatim>\<open>max(min_width, maxl) < W_BOUND\<close>, tokens that are not empty (the tokenizer
  produces no other), and an \<open>H \<times> W\<close> grid.
\<close>

definition precondition :: "string list \<Rightarrow> int \<Rightarrow> int \<Rightarrow> real list list \<Rightarrow> bool" where
  "precondition toks W H target_density =
     (max min_width (fold (\<lambda>t maxl. max maxl (int (length t))) toks 0) < W + shoot
      \<and> list_all (\<lambda>t. t \<noteq> []) toks
      \<and> grid_ok W H target_density)"

text \<open>
  The table of an image row can be allocated: there is no image row, or
  \<^verbatim>\<open>W_BOUND * W_BOUND * 4\<close> is an \<^verbatim>\<open>int\<close>. With \<open>shoot = 10\<close> the second is
  \<open>W \<le> 23160\<close>.
\<close>

definition table_fits :: "int \<Rightarrow> int \<Rightarrow> bool" where
  "table_fits W H = (H \<le> 0 \<or> (W + shoot) * (W + shoot) * 4 \<le> INT_MAX)"

text \<open>
  What holds of the rows written so far, at the head of the loop: the cursor is in
  range, there is one row per round, the rows hold the tokens taken so far in
  order, the rows of the image band are at least \<open>W\<close> wide and the rows after it not
  empty, all are narrower than \<open>W + shoot\<close>, and no row puts two tokens side by side
  that need a separator.
\<close>

definition band_width :: "int \<Rightarrow> int \<Rightarrow> nat \<Rightarrow> blob list \<Rightarrow> bool" where
  "band_width W H m line =
     (int (length (row_text line)) < W + shoot
      \<and> (if int m < H then W \<le> int (length (row_text line)) else 1 \<le> int (length (row_text line))))"

definition loop_inv :: "string list \<Rightarrow> int \<Rightarrow> int \<Rightarrow> loop_state \<Rightarrow> bool" where
  "loop_inv toks W H st =
     (0 \<le> taken st \<and> taken st \<le> int (length toks) \<and> int (length (waifu st)) = row st
      \<and> concat (List.map toks_of (waifu st)) = take (nat (taken st)) toks
      \<and> (\<forall>m < length (waifu st). band_width W H m (waifu st ! m))
      \<and> (\<forall>line \<in> set (waifu st). adjacent_ok line \<and> (\<forall>b \<in> set line. blob_over toks b)))"

text \<open>
  One round of the loop, from the cursor of \<open>a\<close> to the cursor of \<open>b\<close>: the loop
  condition holds at \<open>a\<close>, \<open>row\<close> advances by one, \<open>taken\<close> does not decrease, and
  an overflow round takes at least one token.
\<close>

definition round_ok :: "string list \<Rightarrow> int \<Rightarrow> loop_state \<Rightarrow> loop_state \<Rightarrow> bool" where
  "round_ok toks H a b =
     ((taken a < int (length toks) \<or> row a < H)
      \<and> row b = row a + 1 \<and> taken a \<le> taken b \<and> taken b \<le> int (length toks)
      \<and> (H \<le> row a \<longrightarrow> taken a < taken b))"

subsection \<open>Inputs of the worked examples\<close>

text \<open>
  A command line with the three required options, the arguments it parses to, and
  a file system where no file exists and every path can be written.
\<close>

definition example_argv :: "string list" where
  "example_argv = [''waifufy'', ''--code'', ''c.cpp'', ''--art'', ''a.txt'', ''--out'', ''o.cpp'']"

definition example_args :: Args where
  "example_args = \<lparr> arg_code = ''c.cpp'', arg_art = ''a.txt'', arg_out = ''o.cpp'',
     arg_width = None, arg_height = None, dump_meta = False \<rparr>"

definition no_files :: world where
  "no_files = \<lparr> files = (\<lambda>_. None), writable = (\<lambda>_. True) \<rparr>"

text \<open>The double quote, and source texts that contain it.\<close>

definition dquote :: char where
  "dquote = CHR 0x22"


text \<open>\<^verbatim>\<open>L "x"\<close>: the identifier \<^verbatim>\<open>L\<close> and a string literal.\<close>

definition ident_then_string :: string where
  "ident_then_string = ''L '' @ [dquote] @ ''x'' @ [dquote]"

text \<open>\<^verbatim>\<open>R/**/"d(")d"//"\<close>: a block comment between \<^verbatim>\<open>R\<close> and a string literal.\<close>

definition comment_after_R :: string where
  "comment_after_R = ''R/**/'' @ [dquote] @ ''d('' @ [dquote] @ '')d'' @ [dquote] @ ''//'' @ [dquote]"

text \<open>
  \<^verbatim>\<open>R"d(")d"\<close> where the delimiter \<^verbatim>\<open>d\<close> is \<open>n\<close> letters \<^verbatim>\<open>a\<close>: a raw string literal
  that holds one double quote if \<^verbatim>\<open>d\<close> is accepted as a delimiter.
\<close>

definition raw_with_delimiter :: "nat \<Rightarrow> string" where
  "raw_with_delimiter n =
     ''R'' @ [dquote] @ replicate n (CHR ''a'') @ ''('' @ [dquote] @ '')'' @ replicate n (CHR ''a'') @ [dquote]"
section \<open>Facts about the art parser\<close>

lemma split_lines_unfold:
  "split_lines s =
     (case dropWhile (\<lambda>c. c \<noteq> CHR 0x0A) s of
        [] \<Rightarrow> [takeWhile (\<lambda>c. c \<noteq> CHR 0x0A) s]
      | _ # start \<Rightarrow> takeWhile (\<lambda>c. c \<noteq> CHR 0x0A) s # split_lines start)"
  using split_lines.simps [of s] by (simp add: Let_def)

lemma split_lines_Nil: "split_lines [] = [[]]"
  by (subst split_lines_unfold) simp

lemma split_lines_Cons:
  "split_lines (c # cs) =
     (if c = CHR 0x0A then [] # split_lines cs
      else (c # hd (split_lines cs)) # tl (split_lines cs))"
proof (cases "c = CHR 0x0A")
  case True
  then show ?thesis by (subst split_lines_unfold) simp
next
  case False
  let ?P = "\<lambda>c. c \<noteq> CHR 0x0A"
  have d: "dropWhile ?P (c # cs) = dropWhile ?P cs" "takeWhile ?P (c # cs) = c # takeWhile ?P cs"
    using False by simp_all
  show ?thesis
  proof (cases "dropWhile ?P cs")
    case Nil
    have "split_lines cs = [takeWhile ?P cs]"
      by (subst split_lines_unfold) (simp only: Nil list.case)
    moreover have "split_lines (c # cs) = [c # takeWhile ?P cs]"
      by (subst split_lines_unfold) (simp only: d Nil list.case)
    ultimately show ?thesis using False by simp
  next
    case (Cons x start)
    have "split_lines cs = takeWhile ?P cs # split_lines start"
      by (subst split_lines_unfold) (simp only: Cons list.case)
    moreover have "split_lines (c # cs) = (c # takeWhile ?P cs) # split_lines start"
      by (subst split_lines_unfold) (simp only: d Cons list.case)
    ultimately show ?thesis using False by simp
  qed
qed

lemma split_lines_snoc_newline: "split_lines (t @ [CHR 0x0A]) = split_lines t @ [[]]"
proof (induction t)
  case Nil
  show ?case by (simp add: split_lines_Cons split_lines_Nil)
next
  case (Cons c t)
  have ne: "split_lines t \<noteq> []"
    by (cases t) (simp_all add: split_lines_Nil split_lines_Cons)
  show ?case using Cons ne by (simp add: split_lines_Cons)
qed

section \<open>The table of a row: invariant\<close>

lemma score_char_range: "0 \<le> score_char c col ch \<and> score_char c col ch \<le> 1"
  by (simp add: score_char_def)

lemma sum_list_nonneg_int: "(\<And>x. x \<in> set xs \<Longrightarrow> (0::int) \<le> f x) \<Longrightarrow> 0 \<le> sum_list (List.map f xs)"
  by (induction xs) auto

lemma token_score_nonneg: "0 \<le> token_score c i tok"
  unfolding token_score_def by (rule sum_list_nonneg_int) (simp add: score_char_range)

lemma comment_score_lower: "4 \<le> L \<Longrightarrow> L - 4 \<le> comment_score c i L"
  using score_char_range [of c "i + 0" "CHR ''/''"] score_char_range [of c "i + 1" "CHR ''*''"]
    score_char_range [of c "i + L - 2" "CHR ''*''"] score_char_range [of c "i + L - 1" "CHR ''/''"]
  by (simp add: comment_score_def)

lemma IDX_inj:
  assumes "0 \<le> j" "j < W_BOUND c" "0 \<le> k" "k < 4"
    and "0 \<le> j'" "j' < W_BOUND c" "0 \<le> k'" "k' < 4"
    and e: "IDX c i j k = IDX c i' j' k'"
  shows "i = i' \<and> j = j' \<and> k = k'"
proof -
  let ?B = "W_BOUND c"
  have e4: "4 * (i * ?B + j) + k = 4 * (i' * ?B + j') + k'"
    using e by (simp add: IDX_def algebra_simps)
  have k: "k = k'" and a: "i * ?B + j = i' * ?B + j'"
    using e4 assms(3,4,7,8) by presburger+
  have b: "?B * i + j = ?B * i' + j'" using a by (simp add: algebra_simps)
  have "(?B * i + j) div ?B = i" "(?B * i' + j') div ?B = i'"
    using assms(1,2,5,6) by (simp_all add: int_div_pos_eq [of _ ?B])
  with b have i: "i = i'" by simp
  with b have "j = j'" by simp
  with i k show ?thesis by simp
qed

lemma valid_IDX_inj:
  "valid c i j k \<Longrightarrow> valid c i' j' k' \<Longrightarrow> IDX c i j k = IDX c i' j' k' \<Longrightarrow> i = i' \<and> j = j' \<and> k = k'"
  by (rule IDX_inj [of j c k j' k' i i']) (auto simp: valid_def)

lemma relax_dp:
  "dp (relax tgt cand src s) = (if cand > dp s tgt then (dp s)(tgt := cand) else dp s)"
  by (auto simp: relax_def Let_def split: prod.splits)

lemma relax_dp_mono: "dp s x \<le> dp (relax tgt cand src s) x"
  by (simp add: relax_dp)

lemma relax_dp_target: "cand \<le> dp (relax tgt cand src s) tgt"
  by (simp add: relax_dp)

lemma relax_dp_other: "x \<noteq> tgt \<Longrightarrow> dp (relax tgt cand src s) x = dp s x"
  by (simp add: relax_dp)

lemma relax_bp_other: "x \<noteq> tgt \<Longrightarrow> back_point (relax tgt cand src s) x = back_point s x"
  by (auto simp: relax_def Let_def split: prod.splits)

lemma relax_bp_target:
  "back_point (relax tgt cand src s) tgt = src
   \<or> (back_point (relax tgt cand src s) tgt = back_point s tgt \<and> dp (relax tgt cand src s) tgt = dp s tgt)"
  by (auto simp: relax_def Let_def split: prod.splits)

lemma dp_invD1: "dp_inv c s \<Longrightarrow> dp s x = NEG_INF \<or> 0 \<le> dp s x"
  unfolding dp_inv_def by (elim conjE) (erule allE)

lemma dp_invD2: "dp_inv c s \<Longrightarrow> dp s x \<noteq> NEG_INF \<Longrightarrow> \<exists>i j k. valid c i j k \<and> x = IDX c i j k"
  unfolding dp_inv_def by (elim conjE) (erule_tac x = x and P = "\<lambda>x. dp s x \<noteq> NEG_INF \<longrightarrow> (\<exists>i j k. valid c i j k \<and> x = IDX c i j k)" in allE, erule (1) impE)

lemma dp_invD3:
  assumes "dp_inv c s" "valid c i j k" "dp s (IDX c i j k) \<noteq> NEG_INF" "(i, j, k) \<noteq> (0, 0, 0)"
    and "back_point s (IDX c i j k) = (p_i, p_j, p_k)"
  shows "valid c p_i p_j p_k \<and> dp s (IDX c p_i p_j p_k) \<noteq> NEG_INF \<and> step c (p_i, p_j, p_k) (i, j, k)"
proof -
  from assms(1) have "\<forall>i j k. valid c i j k \<and> dp s (IDX c i j k) \<noteq> NEG_INF \<and> (i, j, k) \<noteq> (0, 0, 0)
            \<longrightarrow> (case back_point s (IDX c i j k) of
                   (p_i, p_j, p_k) \<Rightarrow>
                     valid c p_i p_j p_k \<and> dp s (IDX c p_i p_j p_k) \<noteq> NEG_INF
                     \<and> step c (p_i, p_j, p_k) (i, j, k))"
    unfolding dp_inv_def by (elim conjE)
  then have "valid c i j k \<and> dp s (IDX c i j k) \<noteq> NEG_INF \<and> (i, j, k) \<noteq> (0, 0, 0)
            \<longrightarrow> (case back_point s (IDX c i j k) of
                   (p_i, p_j, p_k) \<Rightarrow>
                     valid c p_i p_j p_k \<and> dp s (IDX c p_i p_j p_k) \<noteq> NEG_INF
                     \<and> step c (p_i, p_j, p_k) (i, j, k))"
    by (elim allE)
  with assms(2-5) show ?thesis by simp
qed

lemma dp_invI:
  assumes "\<And>x. dp s x = NEG_INF \<or> 0 \<le> dp s x"
    and "\<And>x. dp s x \<noteq> NEG_INF \<Longrightarrow> \<exists>i j k. valid c i j k \<and> x = IDX c i j k"
    and "\<And>i j k p_i p_j p_k. valid c i j k \<Longrightarrow> dp s (IDX c i j k) \<noteq> NEG_INF \<Longrightarrow> (i, j, k) \<noteq> (0, 0, 0)
        \<Longrightarrow> back_point s (IDX c i j k) = (p_i, p_j, p_k)
        \<Longrightarrow> valid c p_i p_j p_k \<and> dp s (IDX c p_i p_j p_k) \<noteq> NEG_INF \<and> step c (p_i, p_j, p_k) (i, j, k)"
  shows "dp_inv c s"
  unfolding dp_inv_def
proof (intro conjI allI impI)
  fix x show "dp s x = NEG_INF \<or> 0 \<le> dp s x" by (rule assms(1))
next
  fix x assume "dp s x \<noteq> NEG_INF"
  then show "\<exists>i j k. valid c i j k \<and> x = IDX c i j k" by (rule assms(2))
next
  fix i j k
  assume h: "valid c i j k \<and> dp s (IDX c i j k) \<noteq> NEG_INF \<and> (i, j, k) \<noteq> (0, 0, 0)"
  obtain p_i p_j p_k where p: "back_point s (IDX c i j k) = (p_i, p_j, p_k)"
    by (cases "back_point s (IDX c i j k)")
  from h have "valid c i j k" "dp s (IDX c i j k) \<noteq> NEG_INF" "(i, j, k) \<noteq> (0, 0, 0)" by simp_all
  from assms(3) [OF this p] p
  show "case back_point s (IDX c i j k) of
          (p_i, p_j, p_k) \<Rightarrow>
            valid c p_i p_j p_k \<and> dp s (IDX c p_i p_j p_k) \<noteq> NEG_INF \<and> step c (p_i, p_j, p_k) (i, j, k)"
    by simp
qed

lemma relax_inv:
  assumes inv: "dp_inv c s"
    and src: "valid c p_i p_j p_k" "dp s (IDX c p_i p_j p_k) \<noteq> NEG_INF"
    and tgt: "valid c i j k" "step c (p_i, p_j, p_k) (i, j, k)"
    and cand: "0 \<le> cand"
  shows "dp_inv c (relax (IDX c i j k) cand (p_i, p_j, p_k) s)"
proof (rule dp_invI)
  let ?s' = "relax (IDX c i j k) cand (p_i, p_j, p_k) s"
  let ?t = "IDX c i j k"
  have ninf: "NEG_INF < 0" by (simp add: NEG_INF_def)
  have keep: "dp ?s' x \<noteq> NEG_INF" if "dp s x \<noteq> NEG_INF" for x
  proof -
    from that dp_invD1 [OF inv, of x] have "0 \<le> dp s x" by simp
    with relax_dp_mono [of s x ?t cand "(p_i, p_j, p_k)"] ninf show ?thesis by simp
  qed
  show "dp ?s' x = NEG_INF \<or> 0 \<le> dp ?s' x" for x
    using dp_invD1 [OF inv, of x] cand by (simp add: relax_dp)
  show "\<exists>i j k. valid c i j k \<and> x = IDX c i j k" if h: "dp ?s' x \<noteq> NEG_INF" for x
  proof (cases "x = ?t")
    case True
    with tgt(1) show ?thesis by blast
  next
    case False
    with h have "dp s x \<noteq> NEG_INF" by (simp add: relax_dp_other)
    then show ?thesis by (rule dp_invD2 [OF inv])
  qed
  show "valid c q_i q_j q_k \<and> dp ?s' (IDX c q_i q_j q_k) \<noteq> NEG_INF \<and> step c (q_i, q_j, q_k) (i', j', k')"
    if v: "valid c i' j' k'" and r: "dp ?s' (IDX c i' j' k') \<noteq> NEG_INF"
      and nz: "(i', j', k') \<noteq> (0, 0, 0)"
      and q: "back_point ?s' (IDX c i' j' k') = (q_i, q_j, q_k)"
    for i' j' k' q_i q_j q_k
  proof -
    let ?x = "IDX c i' j' k'"
    have old: "valid c q_i q_j q_k \<and> dp ?s' (IDX c q_i q_j q_k) \<noteq> NEG_INF \<and> step c (q_i, q_j, q_k) (i', j', k')"
      if r0: "dp s ?x \<noteq> NEG_INF" and q0: "back_point s ?x = (q_i, q_j, q_k)"
    proof -
      from dp_invD3 [OF inv v r0 nz q0]
      have "valid c q_i q_j q_k" "dp s (IDX c q_i q_j q_k) \<noteq> NEG_INF" "step c (q_i, q_j, q_k) (i', j', k')"
        by simp_all
      with keep show ?thesis by simp
    qed
    show ?thesis
    proof (cases "?x = ?t")
      case False
      then have "back_point ?s' ?x = back_point s ?x" "dp ?s' ?x = dp s ?x"
        by (simp_all add: relax_bp_other relax_dp_other)
      with old r q show ?thesis by simp
    next
      case True
      with v tgt(1) have same: "i' = i \<and> j' = j \<and> k' = k" by (rule valid_IDX_inj)
      from relax_bp_target [of ?t cand "(p_i, p_j, p_k)" s]
      show ?thesis
      proof
        assume "back_point ?s' ?t = (p_i, p_j, p_k)"
        with True q have "(q_i, q_j, q_k) = (p_i, p_j, p_k)" by simp
        with src keep tgt(2) same show ?thesis by simp
      next
        assume "back_point ?s' ?t = back_point s ?t \<and> dp ?s' ?t = dp s ?t"
        with True old r q show ?thesis by simp
      qed
    qed
  qed
qed
lemma moves_refl: "dp_inv c s \<Longrightarrow> moves c i s s"
  by (simp add: moves_def)

lemma moves_trans: "moves c i s s' \<Longrightarrow> moves c i s' s'' \<Longrightarrow> moves c i s s''"
  unfolding moves_def
proof (intro conjI allI impI)
  assume a: "dp_inv c s' \<and> (\<forall>x. dp s x \<le> dp s' x)
      \<and> (\<forall>i' j' k'. valid c i' j' k' \<and> i' \<le> i \<longrightarrow> dp s' (IDX c i' j' k') = dp s (IDX c i' j' k'))"
    and b: "dp_inv c s'' \<and> (\<forall>x. dp s' x \<le> dp s'' x)
      \<and> (\<forall>i' j' k'. valid c i' j' k' \<and> i' \<le> i \<longrightarrow> dp s'' (IDX c i' j' k') = dp s' (IDX c i' j' k'))"
  from b show "dp_inv c s''" by simp
  fix x
  from a have "dp s x \<le> dp s' x" by simp
  moreover from b have "dp s' x \<le> dp s'' x" by simp
  ultimately show "dp s x \<le> dp s'' x" by simp
next
  fix i' j' k'
  assume a: "dp_inv c s' \<and> (\<forall>x. dp s x \<le> dp s' x)
      \<and> (\<forall>i' j' k'. valid c i' j' k' \<and> i' \<le> i \<longrightarrow> dp s' (IDX c i' j' k') = dp s (IDX c i' j' k'))"
    and b: "dp_inv c s'' \<and> (\<forall>x. dp s' x \<le> dp s'' x)
      \<and> (\<forall>i' j' k'. valid c i' j' k' \<and> i' \<le> i \<longrightarrow> dp s'' (IDX c i' j' k') = dp s' (IDX c i' j' k'))"
    and v: "valid c i' j' k' \<and> i' \<le> i"
  from a v have "dp s' (IDX c i' j' k') = dp s (IDX c i' j' k')" by blast
  moreover from b v have "dp s'' (IDX c i' j' k') = dp s' (IDX c i' j' k')" by blast
  ultimately show "dp s'' (IDX c i' j' k') = dp s (IDX c i' j' k')" by simp
qed

lemma movesD_inv: "moves c i s s' \<Longrightarrow> dp_inv c s'"
  by (simp add: moves_def)

lemma movesD_mono: "moves c i s s' \<Longrightarrow> dp s x \<le> dp s' x"
  by (simp add: moves_def)

lemma movesD_frame: "moves c i s s' \<Longrightarrow> valid c i' j' k' \<Longrightarrow> i' \<le> i
    \<Longrightarrow> dp s' (IDX c i' j' k') = dp s (IDX c i' j' k')"
  unfolding moves_def by blast

lemma relax_moves:
  assumes inv: "dp_inv c s"
    and src: "valid c i j k" "dp s (IDX c i j k) \<noteq> NEG_INF"
    and tgt: "valid c i' j' k'" "step c (i, j, k) (i', j', k')" "i < i'"
    and cand: "0 \<le> cand"
  shows "moves c i s (relax (IDX c i' j' k') cand (i, j, k) s)"
  unfolding moves_def
proof (intro conjI allI impI)
  show "dp_inv c (relax (IDX c i' j' k') cand (i, j, k) s)"
    using inv src tgt(1,2) cand by (rule relax_inv)
  show "dp s x \<le> dp (relax (IDX c i' j' k') cand (i, j, k) s) x" for x
    by (rule relax_dp_mono)
  show "dp (relax (IDX c i' j' k') cand (i, j, k) s) (IDX c a b d) = dp s (IDX c a b d)"
    if h: "valid c a b d \<and> a \<le> i" for a b d
  proof -
    have "IDX c a b d \<noteq> IDX c i' j' k'"
    proof
      assume "IDX c a b d = IDX c i' j' k'"
      with h tgt(1) have "a = i'" using valid_IDX_inj by blast
      with h tgt(3) show False by simp
    qed
    then show ?thesis by (rule relax_dp_other)
  qed
qed

lemma space_transition_moves:
  assumes "dp_inv c s" "valid c i j k" "dp s (IDX c i j k) \<noteq> NEG_INF" "0 \<le> cur"
  shows "moves c i s (space_transition c i j k cur s)"
proof (cases "i + 1 < W_BOUND c")
  case False
  then show ?thesis using assms(1) by (simp add: space_transition_def moves_refl)
next
  case True
  have "valid c (i + 1) j 0" using assms(2) True by (simp add: valid_def)
  moreover have "step c (i, j, k) (i + 1, j, 0)" by (simp add: step_def)
  moreover have "0 \<le> cur + score_char c i (CHR '' '')"
    using assms(4) score_char_range [of c i "CHR '' ''"] by simp
  ultimately have "moves c i s (relax (IDX c (i + 1) j 0) (cur + score_char c i (CHR '' '')) (i, j, k) s)"
    using assms(1-3) by (intro relax_moves) simp_all
  with True show ?thesis by (simp add: space_transition_def)
qed

lemma comment_fold_moves:
  assumes "dp_inv c s" "valid c i j k" "dp s (IDX c i j k) \<noteq> NEG_INF" "0 \<le> cur"
    and "\<forall>L \<in> set Ls. 4 \<le> L \<and> i + L < W_BOUND c"
  shows "moves c i s (fold (\<lambda>L. relax (IDX c (i + L) j 1) (cur + comment_score c i L) (i, j, k)) Ls s)"
  using assms
proof (induction Ls arbitrary: s)
  case Nil
  then show ?case by (simp add: moves_refl)
next
  case (Cons L Ls)
  let ?s1 = "relax (IDX c (i + L) j 1) (cur + comment_score c i L) (i, j, k) s"
  from Cons.prems(5) have L: "4 \<le> L" "i + L < W_BOUND c" by simp_all
  have "valid c (i + L) j 1" using Cons.prems(2) L by (simp add: valid_def)
  moreover have "step c (i, j, k) (i + L, j, 1)" using L by (simp add: step_def)
  moreover have "0 \<le> cur + comment_score c i L"
    using Cons.prems(4) comment_score_lower [OF L(1), of c i] L(1) by simp
  ultimately have m1: "moves c i s ?s1"
    using Cons.prems(1-3) L by (intro relax_moves) simp_all
  have r1: "dp ?s1 (IDX c i j k) \<noteq> NEG_INF"
    using movesD_frame [OF m1 Cons.prems(2)] Cons.prems(3) by simp
  have "moves c i ?s1 (fold (\<lambda>L. relax (IDX c (i + L) j 1) (cur + comment_score c i L) (i, j, k)) Ls ?s1)"
    using movesD_inv [OF m1] Cons.prems(2) r1 Cons.prems(4) Cons.prems(5)
    by (intro Cons.IH) simp_all
  with m1 show ?case by (simp add: moves_trans [of c i s ?s1])
qed

lemma comment_transitions_moves:
  assumes "dp_inv c s" "valid c i j k" "dp s (IDX c i j k) \<noteq> NEG_INF" "0 \<le> cur"
  shows "moves c i s (comment_transitions c i j k cur s)"
  unfolding comment_transitions_def Let_def
  using assms by (intro comment_fold_moves) auto

lemma token_at_in_set:
  assumes "row_ok c" "0 \<le> j" "j < tokens_left_total c"
  shows "token_at c j \<in> set (tokens c)"
proof -
  from assms have "0 \<le> c_taken c + j" "c_taken c + j < n_tokens c"
    by (auto simp: row_ok_def tokens_left_total_def)
  then have "nat (c_taken c + j) < length (tokens c)" by (simp add: n_tokens_def)
  then show ?thesis unfolding token_at_def by (rule nth_mem)
qed

lemma token_transition_moves:
  assumes "row_ok c" "dp_inv c s" "valid c i j k" "dp s (IDX c i j k) \<noteq> NEG_INF" "0 \<le> cur"
  shows "moves c i s (token_transition c i j k cur s)"
proof (cases "j < tokens_left_total c \<and> k \<noteq> 2 \<and> i + int (length (token_at c j)) < W_BOUND c")
  case False
  then show ?thesis using assms(2) by (auto simp: token_transition_def Let_def moves_refl)
next
  case True
  let ?tok = "token_at c j"
  let ?L = "int (length ?tok)"
  let ?nk = "if need_sep c j then 2 else 3 :: int"
  from assms(3) have v: "0 \<le> i" "i < W_BOUND c" "0 \<le> j" "j \<le> i" "0 \<le> k" "k < 4"
    by (simp_all add: valid_def)
  from True have "token_at c j \<in> set (tokens c)"
    using token_at_in_set [OF assms(1) v(3)] by simp
  with assms(1) have "?tok \<noteq> []"
    unfolding row_ok_def by blast
  then have "0 < length ?tok" by simp
  then have L: "1 \<le> ?L" by linarith
  have mj: "j \<le> maxJThisRow c" using v True by (simp add: maxJThisRow_def)
  have "valid c (i + ?L) (j + 1) ?nk" using v True L by (simp add: valid_def)
  moreover have "step c (i, j, k) (i + ?L, j + 1, ?nk)" using True by (simp add: step_def)
  moreover have "0 \<le> cur + token_score c i ?tok" using assms(5) token_score_nonneg [of c i ?tok] by simp
  moreover have "i < i + ?L" using L by linarith
  ultimately have "moves c i s (relax (IDX c (i + ?L) (j + 1) ?nk) (cur + token_score c i ?tok) (i, j, k) s)"
    using assms(2-4) by (intro relax_moves)
  moreover have "token_transition c i j k cur s
      = relax (IDX c (i + ?L) (j + 1) ?nk) (cur + token_score c i ?tok) (i, j, k) s"
    using True mj by (simp add: token_transition_def Let_def)
  ultimately show ?thesis by simp
qed

lemma expand_moves:
  assumes ok: "row_ok c" and inv: "dp_inv c s" and v: "valid c i j k"
  shows "moves c i s (expand c i j k s)"
proof (cases "dp s (IDX c i j k) = NEG_INF")
  case True
  then show ?thesis using inv by (simp add: expand_def moves_refl)
next
  case False
  let ?cur = "dp s (IDX c i j k)"
  let ?s1 = "space_transition c i j k ?cur s"
  let ?s2 = "comment_transitions c i j k ?cur ?s1"
  let ?s3 = "token_transition c i j k ?cur ?s2"
  from False dp_invD1 [OF inv, of "IDX c i j k"] have cur: "0 \<le> ?cur" by simp
  have m1: "moves c i s ?s1" using inv v False cur by (rule space_transition_moves)
  have r1: "dp ?s1 (IDX c i j k) \<noteq> NEG_INF" using movesD_frame [OF m1 v] False by simp
  have m2: "moves c i ?s1 ?s2" using movesD_inv [OF m1] v r1 cur by (rule comment_transitions_moves)
  have r2: "dp ?s2 (IDX c i j k) \<noteq> NEG_INF" using movesD_frame [OF m2 v] r1 by simp
  have m3: "moves c i ?s2 ?s3" using ok movesD_inv [OF m2] v r2 cur by (rule token_transition_moves)
  have "moves c i s ?s3" using m1 m2 m3 by (blast intro: moves_trans)
  with False show ?thesis by (simp add: expand_def Let_def)
qed
lemma comment_fold_target:
  "L0 \<in> set Ls \<Longrightarrow>
   cand L0 \<le> dp (fold (\<lambda>L. relax (tgt L) (cand L) src) Ls s) (tgt L0)"
proof (induction Ls arbitrary: s)
  case Nil
  then show ?case by simp
next
  case (Cons L Ls)
  have mono: "dp s' x \<le> dp (fold (\<lambda>L. relax (tgt L) (cand L) src) Ls s') x" for s' x
    by (induction Ls arbitrary: s') (auto intro: order_trans [OF relax_dp_mono])
  show ?case
  proof (cases "L0 \<in> set Ls")
    case True
    then show ?thesis using Cons.IH by simp
  next
    case False
    with Cons.prems have "L0 = L" by simp
    then have "cand L0 \<le> dp (relax (tgt L) (cand L) src s) (tgt L0)"
      by (simp add: relax_dp_target)
    also have "\<dots> \<le> dp (fold (\<lambda>L. relax (tgt L) (cand L) src) Ls (relax (tgt L) (cand L) src s)) (tgt L0)"
      by (rule mono)
    finally show ?thesis by simp
  qed
qed

lemma expand_expanded:
  assumes ok: "row_ok c" and inv: "dp_inv c s" and v: "valid c i j k"
  shows "expanded c (expand c i j k s) i j k"
proof (cases "dp s (IDX c i j k) = NEG_INF")
  case True
  then show ?thesis by (simp add: expand_def expanded_def)
next
  case False
  let ?cur = "dp s (IDX c i j k)"
  let ?s1 = "space_transition c i j k ?cur s"
  let ?s2 = "comment_transitions c i j k ?cur ?s1"
  let ?s3 = "token_transition c i j k ?cur ?s2"
  from False dp_invD1 [OF inv, of "IDX c i j k"] have cur: "0 \<le> ?cur" by simp
  have m1: "moves c i s ?s1" using inv v False cur by (rule space_transition_moves)
  have r1: "dp ?s1 (IDX c i j k) \<noteq> NEG_INF" using movesD_frame [OF m1 v] False by simp
  have m2: "moves c i ?s1 ?s2" using movesD_inv [OF m1] v r1 cur by (rule comment_transitions_moves)
  have r2: "dp ?s2 (IDX c i j k) \<noteq> NEG_INF" using movesD_frame [OF m2 v] r1 by simp
  have m3: "moves c i ?s2 ?s3" using ok movesD_inv [OF m2] v r2 cur by (rule token_transition_moves)
  have e: "expand c i j k s = ?s3" using False by (simp add: expand_def Let_def)
  have same: "dp ?s3 (IDX c i j k) = ?cur"
    using movesD_frame [OF m1 v] movesD_frame [OF m2 v] movesD_frame [OF m3 v] by simp
  have sp: "?cur \<le> dp ?s3 (IDX c (i + 1) j 0)" if "i + 1 < W_BOUND c"
  proof -
    have "?cur \<le> ?cur + score_char c i (CHR '' '')"
      using score_char_range [of c i "CHR '' ''"] by simp
    also have "\<dots> \<le> dp ?s1 (IDX c (i + 1) j 0)"
      using that by (simp add: space_transition_def relax_dp_target)
    also have "\<dots> \<le> dp ?s2 (IDX c (i + 1) j 0)" by (rule movesD_mono [OF m2])
    also have "\<dots> \<le> dp ?s3 (IDX c (i + 1) j 0)" by (rule movesD_mono [OF m3])
    finally show ?thesis .
  qed
  have co: "?cur + 1 \<le> dp ?s3 (IDX c (i + 5) j 1)" if "i + 5 < W_BOUND c"
  proof -
    have in5: "(5::int) \<in> set [4 .. min MX_COMMENT_LENGTH (W_BOUND c - i - 1)]"
      using that by (simp add: MX_COMMENT_LENGTH_def)
    have "?cur + 1 \<le> ?cur + comment_score c i 5"
      using comment_score_lower [of 5 c i] by simp
    also have "\<dots> \<le> dp ?s2 (IDX c (i + 5) j 1)"
      unfolding comment_transitions_def Let_def
      by (rule comment_fold_target [of 5 _ "\<lambda>L. ?cur + comment_score c i L" "\<lambda>L. IDX c (i + L) j 1", OF in5])
    also have "\<dots> \<le> dp ?s3 (IDX c (i + 5) j 1)" by (rule movesD_mono [OF m3])
    finally show ?thesis .
  qed
  show ?thesis unfolding e expanded_def same using sp co by simp
qed

lemma moves_expanded:
  assumes "moves c i s s'" "valid c i0 j0 k0" "i0 \<le> i" "expanded c s i0 j0 k0"
  shows "expanded c s' i0 j0 k0"
proof -
  have same: "dp s' (IDX c i0 j0 k0) = dp s (IDX c i0 j0 k0)"
    using assms(1-3) by (rule movesD_frame)
  show ?thesis
    unfolding expanded_def same
    using assms(4) movesD_mono [OF assms(1), of "IDX c (i0 + 1) j0 0"]
      movesD_mono [OF assms(1), of "IDX c (i0 + 5) j0 1"]
    by (auto simp: expanded_def)
qed

lemma fold_establish_sorted:
  fixes key :: "'a \<Rightarrow> int"
  assumes "I s"
    and est: "\<And>x s. x \<in> set xs \<Longrightarrow> I s \<Longrightarrow> I (f x s) \<and> Q x (f x s)"
    and pres: "\<And>x y s. x \<in> set xs \<Longrightarrow> y \<in> set xs \<Longrightarrow> key x \<le> key y \<Longrightarrow> I s \<Longrightarrow> Q x s
        \<Longrightarrow> Q x (f y s)"
    and "sorted (List.map key xs)"
  shows "I (fold f xs s) \<and> (\<forall>x \<in> set xs. Q x (fold f xs s))"
  using assms(2-4)
proof (induction xs rule: rev_induct)
  case Nil
  show ?case using assms(1) by simp
next
  case (snoc y xs)
  have sorted_xs: "sorted (List.map key xs)" and le: "\<forall>x \<in> set xs. key x \<le> key y"
    using snoc.prems(3) by (auto simp: sorted_append)
  have ih: "I (fold f xs s) \<and> (\<forall>x \<in> set xs. Q x (fold f xs s))"
  proof (rule snoc.IH)
    show "\<And>x s. x \<in> set xs \<Longrightarrow> I s \<Longrightarrow> I (f x s) \<and> Q x (f x s)"
      using snoc.prems(1) by simp
    show "\<And>x y s. x \<in> set xs \<Longrightarrow> y \<in> set xs \<Longrightarrow> key x \<le> key y \<Longrightarrow> I s \<Longrightarrow> Q x s \<Longrightarrow> Q x (f y s)"
      using snoc.prems(2) by simp
    show "sorted (List.map key xs)" by (rule sorted_xs)
  qed
  let ?s1 = "fold f xs s"
  have y: "I (f y ?s1) \<and> Q y (f y ?s1)" using snoc.prems(1) [of y ?s1] ih by simp
  have "Q x (f y ?s1)" if "x \<in> set xs" for x
    using snoc.prems(2) [of x y ?s1] that le ih by simp
  with y show ?case by auto
qed

lemma solve_dp_flat:
  "solve_dp c r = fold (\<lambda>(i, j, k). expand c i j k) (order c) (init_dp c r)"
proof -
  have inner: "fold (\<lambda>j. fold (\<lambda>k. e j k) ks) js s
      = fold (\<lambda>(j, k). e j k) (concat (List.map (\<lambda>j. List.map (\<lambda>k. (j, k)) ks) js)) s"
    for e :: "int \<Rightarrow> int \<Rightarrow> dp_state \<Rightarrow> dp_state" and ks js s
    by (induction js arbitrary: s) (simp_all add: fold_map comp_def)
  have outer: "fold (\<lambda>i. fold (\<lambda>(j, k). e i j k) (ys i)) is s
      = fold (\<lambda>(i, j, k). e i j k) (concat (List.map (\<lambda>i. List.map (\<lambda>(j, k). (i, j, k)) (ys i)) is)) s"
    for e :: "int \<Rightarrow> int \<Rightarrow> int \<Rightarrow> dp_state \<Rightarrow> dp_state" and ys "is" s
    by (induction "is" arbitrary: s) (simp_all add: fold_map comp_def case_prod_unfold)
  have l: "concat (List.map (\<lambda>i. List.map (\<lambda>(j, k). (i, j, k))
              (concat (List.map (\<lambda>j. List.map (\<lambda>k. (j, k)) [0 .. 3]) [0 .. min i (tokens_left_total c)])))
           [0 .. W_BOUND c - 1]) = order c"
    unfolding order_def by (simp add: map_concat comp_def)
  show ?thesis
    unfolding solve_dp_def inner outer l ..
qed

lemma order_set: "(i, j, k) \<in> set (order c) \<longleftrightarrow> valid c i j k"
proof
  assume "(i, j, k) \<in> set (order c)"
  then show "valid c i j k" by (auto simp: order_def valid_def)
next
  assume v: "valid c i j k"
  then have "i \<in> set [0 .. W_BOUND c - 1]" "j \<in> set [0 .. min i (tokens_left_total c)]"
    "k \<in> set [0 .. 3]" by (simp_all add: valid_def)
  then show "(i, j, k) \<in> set (order c)" unfolding order_def by (simp del: set_upto) blast
qed

lemma sorted_const_key: "(\<And>x. x \<in> set xs \<Longrightarrow> key x = (i::int)) \<Longrightarrow> sorted (List.map key xs)"
  by (induction xs) auto

lemma sorted_concat_key:
  fixes key :: "'a \<Rightarrow> int"
  assumes "sorted is" and "\<And>i x. x \<in> set (rows i) \<Longrightarrow> key x = i"
  shows "sorted (List.map key (concat (List.map rows is)))"
  using assms(1)
proof (induction "is")
  case Nil
  show ?case by simp
next
  case (Cons i "is")
  have a: "sorted (List.map key (rows i))"
    by (rule sorted_const_key [of _ _ i]) (rule assms(2))
  have b: "sorted (List.map key (concat (List.map rows is)))"
    using Cons by simp
  have c: "key x \<le> key y" if "x \<in> set (rows i)" "y \<in> set (concat (List.map rows is))" for x y
  proof -
    from that(2) obtain i' where "i' \<in> set is" "y \<in> set (rows i')" by auto
    with assms(2) Cons.prems that(1) show ?thesis by auto
  qed
  have "\<forall>x \<in> set (List.map key (rows i)). \<forall>y \<in> set (List.map key (concat (List.map rows is))). x \<le> y"
    using c by auto
  with a b show ?case by (simp add: sorted_append del: set_map set_concat)
qed

lemma order_sorted: "sorted (List.map fst (order c))"
  unfolding order_def
  by (rule sorted_concat_key) auto
lemma init_dp_inv:
  assumes "row_ok c"
  shows "dp_inv c (init_dp c r)"
proof (rule dp_invI)
  have wb: "0 < W_BOUND c" using assms by (simp add: row_ok_def min_width_def)
  have v0: "valid c 0 0 0" using wb by (simp add: valid_def tokens_left_total_def)
  show "dp (init_dp c r) x = NEG_INF \<or> 0 \<le> dp (init_dp c r) x" for x
    by (simp add: init_dp_def)
  show "\<exists>i j k. valid c i j k \<and> x = IDX c i j k" if "dp (init_dp c r) x \<noteq> NEG_INF" for x
    using that v0 by (auto simp: init_dp_def split: if_splits)
  show "valid c p_i p_j p_k \<and> dp (init_dp c r) (IDX c p_i p_j p_k) \<noteq> NEG_INF \<and> step c (p_i, p_j, p_k) (i, j, k)"
    if "valid c i j k" "dp (init_dp c r) (IDX c i j k) \<noteq> NEG_INF" "(i, j, k) \<noteq> (0, 0, 0)"
    for i j k p_i p_j p_k
  proof -
    from that(2) have "IDX c i j k = IDX c 0 0 0" by (simp add: init_dp_def split: if_splits)
    with that(1) v0 have "i = 0 \<and> j = 0 \<and> k = 0" by (rule valid_IDX_inj)
    with that(3) show ?thesis by simp
  qed
qed

lemma solve_dp_inv:
  assumes ok: "row_ok c"
  shows "dp_inv c (solve_dp c r) \<and> (\<forall>i j k. valid c i j k \<longrightarrow> expanded c (solve_dp c r) i j k)"
proof -
  let ?f = "\<lambda>(i, j, k). expand c i j k"
  let ?Q = "\<lambda>(i, j, k) s. expanded c s i j k"
  have "dp_inv c (fold ?f (order c) (init_dp c r))
      \<and> (\<forall>x \<in> set (order c). ?Q x (fold ?f (order c) (init_dp c r)))"
  proof (rule fold_establish_sorted [where key = fst])
    show "dp_inv c (init_dp c r)" using ok by (rule init_dp_inv)
    show "sorted (List.map fst (order c))" by (rule order_sorted)
    show "dp_inv c (?f x s) \<and> ?Q x (?f x s)" if "x \<in> set (order c)" "dp_inv c s" for x s
    proof -
      obtain i j k where x: "x = (i, j, k)" by (cases x) auto
      with that(1) have v: "valid c i j k" by (simp add: order_set)
      show ?thesis
        using movesD_inv [OF expand_moves [OF ok that(2) v]] expand_expanded [OF ok that(2) v] x
        by simp
    qed
    show "?Q x (?f y s)"
      if "x \<in> set (order c)" "y \<in> set (order c)" "fst x \<le> fst y" "dp_inv c s" "?Q x s" for x y s
    proof -
      obtain i j k where x: "x = (i, j, k)" by (cases x) auto
      obtain i' j' k' where y: "y = (i', j', k')" by (cases y) auto
      from that(1,2) x y have v: "valid c i j k" "valid c i' j' k'" by (simp_all add: order_set)
      from that(3) x y have le: "i \<le> i'" by simp
      from that(5) x have e: "expanded c s i j k" by simp
      have "expanded c (expand c i' j' k' s) i j k"
        using expand_moves [OF ok that(4) v(2)] v(1) le e by (rule moves_expanded)
      with x y show ?thesis by simp
    qed
  qed
  then show ?thesis unfolding solve_dp_flat by (auto simp: order_set [symmetric])
qed
lemma terminal_states_set:
  "(i, j, k) \<in> set (terminal_states c jlo)
     \<longleftrightarrow> iStart c \<le> i \<and> i < W_BOUND c \<and> jlo \<le> j \<and> j \<le> jHi c \<and> 0 \<le> k \<and> k \<le> 3"
proof
  assume "(i, j, k) \<in> set (terminal_states c jlo)"
  then show "iStart c \<le> i \<and> i < W_BOUND c \<and> jlo \<le> j \<and> j \<le> jHi c \<and> 0 \<le> k \<and> k \<le> 3"
    by (auto simp: terminal_states_def)
next
  assume "iStart c \<le> i \<and> i < W_BOUND c \<and> jlo \<le> j \<and> j \<le> jHi c \<and> 0 \<le> k \<and> k \<le> 3"
  then have "i \<in> set [iStart c .. W_BOUND c - 1]" "j \<in> set [jlo .. jHi c]" "k \<in> set [0 .. 3]"
    by simp_all
  then show "(i, j, k) \<in> set (terminal_states c jlo)"
    unfolding terminal_states_def by (simp del: set_upto) blast
qed

lemma column_states_set:
  "(i, j', k) \<in> set [(i, j, k). i \<leftarrow> [iStart c .. W_BOUND c - 1], k \<leftarrow> [0 .. 3]]
     \<longleftrightarrow> iStart c \<le> i \<and> i < W_BOUND c \<and> j' = j \<and> 0 \<le> k \<and> k \<le> 3"
proof
  assume "(i, j', k) \<in> set [(i, j, k). i \<leftarrow> [iStart c .. W_BOUND c - 1], k \<leftarrow> [0 .. 3]]"
  then show "iStart c \<le> i \<and> i < W_BOUND c \<and> j' = j \<and> 0 \<le> k \<and> k \<le> 3" by auto
next
  assume "iStart c \<le> i \<and> i < W_BOUND c \<and> j' = j \<and> 0 \<le> k \<and> k \<le> 3"
  then have "i \<in> set [iStart c .. W_BOUND c - 1]" "k \<in> set [0 .. 3]" "j' = j" by simp_all
  then show "(i, j', k) \<in> set [(i, j, k). i \<leftarrow> [iStart c .. W_BOUND c - 1], k \<leftarrow> [0 .. 3]]"
    by (simp del: set_upto) blast
qed

lemma best_state_good:
  assumes d: "\<And>x. d x = NEG_INF \<or> 0 \<le> d x"
    and any: "any_state c d minTok"
    and bs: "best_state c d minTok = (bestVal, bestState)"
  shows "good c d bestState \<and> val_of c d bestState = bestVal"
proof -
  let ?xs = "terminal_states c (max 0 minTok)"
  from any obtain y where y: "y \<in> set ?xs" "val_of c d y \<noteq> NEG_INF"
    by (auto simp: any_state_def list_ex_iff)
  obtain yi yj yk where yy: "y = (yi, yj, yk)" by (cases y) auto
  from y(2) d [of "IDX c yi yj yk"] yy have ypos: "NEG_INF < val_of c d y"
    by (simp add: val_of_def NEG_INF_def)
  from scan_best_cases [of "val_of c d" "\<lambda>_. True" ?xs NEG_INF "(0, 0, 0)"] bs
  have "(bestVal = NEG_INF \<and> (\<forall>x \<in> set ?xs. val_of c d x \<le> NEG_INF))
      \<or> (bestState \<in> set ?xs \<and> bestVal = val_of c d bestState \<and> val_of c d bestState > NEG_INF
          \<and> (\<forall>x \<in> set ?xs. val_of c d x \<le> val_of c d bestState))"
    unfolding best_state_def by auto
  with y(1) ypos have b: "bestState \<in> set ?xs" "bestVal = val_of c d bestState"
    "val_of c d bestState > NEG_INF" "\<forall>x \<in> set ?xs. val_of c d x \<le> val_of c d bestState"
    by auto
  obtain i j k where x: "bestState = (i, j, k)" by (cases bestState) auto
  from b(1) x have r: "iStart c \<le> i" "i < W_BOUND c" "max 0 minTok \<le> j" "j \<le> jHi c" "0 \<le> k" "k \<le> 3"
    by (simp_all add: terminal_states_set)
  have "d (IDX c i' j k') \<le> d (IDX c i j k)"
    if "iStart c \<le> i' \<and> i' < W_BOUND c \<and> 0 \<le> k' \<and> k' \<le> 3" for i' k'
  proof -
    from that r have "(i', j, k') \<in> set ?xs" by (simp add: terminal_states_set)
    with b(4) x show ?thesis by (auto simp: val_of_def)
  qed
  with r b(2,3) x show ?thesis by (simp add: good_def val_of_def)
qed

lemma best_at_j_good:
  assumes bj: "best_at_j c d threshold j = (bestAtJ, cand)" and ne: "bestAtJ \<noteq> NEG_INF"
    and j: "0 \<le> j" "j \<le> jHi c"
  shows "good c d cand"
proof -
  let ?xs = "[(i, j, k). i \<leftarrow> [iStart c .. W_BOUND c - 1], k \<leftarrow> [0 .. 3]]"
  from scan_best_cases [of "val_of c d" "\<lambda>x. val_of c d x \<ge> threshold" ?xs NEG_INF "(0, 0, 0)"] bj ne
  have b: "cand \<in> set ?xs" "bestAtJ = val_of c d cand" "threshold \<le> val_of c d cand"
    "val_of c d cand > NEG_INF"
    "\<forall>y \<in> set ?xs. threshold \<le> val_of c d y \<longrightarrow> val_of c d y \<le> val_of c d cand"
    unfolding best_at_j_def by auto
  obtain i j' k where x: "cand = (i, j', k)" by (cases cand) auto
  from b(1) x have r: "iStart c \<le> i" "i < W_BOUND c" "j' = j" "0 \<le> k" "k \<le> 3"
    using column_states_set [of i j' k j c] by simp_all
  have "d (IDX c i' j k') \<le> d (IDX c i j k)"
    if h: "iStart c \<le> i' \<and> i' < W_BOUND c \<and> 0 \<le> k' \<and> k' \<le> 3" for i' k'
  proof (cases "threshold \<le> d (IDX c i' j k')")
    case True
    from h have "(i', j, k') \<in> set ?xs" using column_states_set [of i' j k' j c] by simp
    with b(5) True x r show ?thesis by (auto simp: val_of_def)
  next
    case False
    with b(3) x r show ?thesis by (simp add: val_of_def)
  qed
  with r b(4) x j show ?thesis by (simp add: good_def val_of_def)
qed

lemma pick_max_j_good:
  assumes "good c d chosen" "\<forall>j \<in> set js. 0 \<le> j \<and> j \<le> jHi c"
  shows "good c d (pick_max_j c d threshold chosen js)"
  using assms
proof (induction js)
  case Nil
  then show ?case by simp
next
  case (Cons j js)
  obtain b cand where bc: "best_at_j c d threshold j = (b, cand)"
    by (cases "best_at_j c d threshold j")
  show ?case
  proof (cases "b \<noteq> NEG_INF")
    case True
    have "good c d cand" using bc True Cons.prems(2) by (intro best_at_j_good [of c d threshold j b]) simp_all
    with True bc show ?thesis by simp
  next
    case False
    with bc Cons show ?thesis by simp
  qed
qed

lemma select_at_good:
  assumes d: "\<And>x. d x = NEG_INF \<or> 0 \<le> d x" and any: "any_state c d minTok"
  shows "good c d (select_at c d minTok)"
proof -
  obtain b s where bs: "best_state c d minTok = (b, s)" by (cases "best_state c d minTok")
  have "good c d s" using best_state_good [OF d any bs] by simp
  then have "good c d (pick_max_j c d (b - SCORE_RELAXATION c) s (rev [max 0 minTok .. jHi c]))"
    by (rule pick_max_j_good) auto
  with bs show ?thesis by (simp add: select_at_def)
qed

lemma select_tiers_good:
  assumes d: "\<And>x. d x = NEG_INF \<or> 0 \<le> d x"
  shows "select_tiers c d ms = Some chosen \<Longrightarrow> good c d chosen"
  by (induction ms) (auto simp: select_at_good [OF d] split: if_splits)

lemma select_tiers_none:
  "select_tiers c d ms = None \<Longrightarrow> m \<in> set ms \<Longrightarrow> \<not> any_state c d m"
  by (induction ms) (auto split: if_splits)

lemma optimal_state_good:
  assumes d: "\<And>x. d x = NEG_INF \<or> 0 \<le> d x" and any: "any_state c d 0"
  shows "good c d (optimal_state c d)"
proof -
  have "0 \<in> set (rev [0 .. min MN_TOKENS (tokens_left_total c)])"
    by (simp add: MN_TOKENS_def tokens_left_total_def)
  with any have "select_tiers c d (rev [0 .. min MN_TOKENS (tokens_left_total c)]) \<noteq> None"
    using select_tiers_none by blast
  then obtain chosen where
    ch: "select_tiers c d (rev [0 .. min MN_TOKENS (tokens_left_total c)]) = Some chosen"
    by (cases "select_tiers c d (rev [0 .. min MN_TOKENS (tokens_left_total c)])") auto
  from select_tiers_good [OF d ch] ch show ?thesis by (simp add: optimal_state_def)
qed
lemma solve_dp_mono:
  assumes ok: "row_ok c"
  shows "dp (init_dp c r) x \<le> dp (solve_dp c r) x"
proof -
  let ?f = "\<lambda>(i, j, k). expand c i j k"
  let ?I = "\<lambda>s. dp_inv c s \<and> dp (init_dp c r) x \<le> dp s x"
  have "?I (fold ?f (order c) (init_dp c r))
      \<and> (\<forall>y \<in> set (order c). (\<lambda>_ _. True) y (fold ?f (order c) (init_dp c r)))"
  proof (rule fold_establish_sorted [where key = fst])
    show "?I (init_dp c r)" using init_dp_inv [OF ok] by simp
    show "sorted (List.map fst (order c))" by (rule order_sorted)
    show "?I (?f y s) \<and> True" if "y \<in> set (order c)" "?I s" for y s
    proof -
      obtain i j k where y: "y = (i, j, k)" by (cases y) auto
      with that(1) have v: "valid c i j k" by (simp add: order_set)
      from that(2) have inv: "dp_inv c s" by simp
      have m: "moves c i s (expand c i j k s)" using ok inv v by (rule expand_moves)
      from movesD_inv [OF m] movesD_mono [OF m, of x] that(2) y show ?thesis by simp
    qed
  qed simp
  then show ?thesis unfolding solve_dp_flat by simp
qed

lemma W_BOUND_pos: "row_ok c \<Longrightarrow> min_width < W_BOUND c"
  by (simp add: row_ok_def)

lemma solve_dp_spaces:
  assumes ok: "row_ok c" and i: "0 \<le> i" "i < W_BOUND c"
  shows "dp (solve_dp c r) (IDX c i 0 0) \<noteq> NEG_INF"
proof -
  let ?s = "solve_dp c r"
  note si = solve_dp_inv [OF ok, of r]
  have "0 \<le> dp ?s (IDX c (int m) 0 0)" if "int m < W_BOUND c" for m
    using that
  proof (induction m)
    case 0
    have "dp (init_dp c r) (IDX c 0 0 0) \<le> dp ?s (IDX c 0 0 0)" by (rule solve_dp_mono [OF ok])
    then show ?case by (simp add: init_dp_def)
  next
    case (Suc m)
    then have lt: "int m + 1 < W_BOUND c" by simp
    then have ih: "0 \<le> dp ?s (IDX c (int m) 0 0)" using Suc.IH by simp
    have v: "valid c (int m) 0 0" using lt by (simp add: valid_def tokens_left_total_def)
    from si v have "expanded c ?s (int m) 0 0" by blast
    with ih lt have "dp ?s (IDX c (int m) 0 0) \<le> dp ?s (IDX c (int m + 1) 0 0)"
      by (simp add: expanded_def NEG_INF_def)
    with ih show ?case by (simp add: add.commute)
  qed
  from this [of "nat i"] i show ?thesis by (simp add: NEG_INF_def)
qed

lemma solve_dp_any_state:
  assumes ok: "row_ok c"
  shows "any_state c (dp (solve_dp c r)) 0"
proof -
  have wb: "min_width < W_BOUND c" using ok by (rule W_BOUND_pos)
  have r: "0 \<le> iStart c" "iStart c < W_BOUND c"
    using wb by (simp_all add: iStart_def W_BOUND_def shoot_def min_width_def)
  have "(iStart c, 0, 0) \<in> set (terminal_states c (max 0 0))"
    using r wb by (simp add: terminal_states_set jHi_def tokens_left_total_def min_width_def)
  moreover have "val_of c (dp (solve_dp c r)) (iStart c, 0, 0) \<noteq> NEG_INF"
    using solve_dp_spaces [OF ok r] by (simp add: val_of_def)
  ultimately show ?thesis unfolding any_state_def list_ex_iff by blast
qed

text \<open>The terminal state of a solved row.\<close>

lemma optimal_state_solved:
  assumes ok: "row_ok c" and o: "optimal_state c (dp (solve_dp c r)) = (i, j, k)"
  shows "valid c i j k \<and> dp (solve_dp c r) (IDX c i j k) \<noteq> NEG_INF
         \<and> c_W c + 5 \<le> i \<and> i < W_BOUND c"
proof -
  let ?s = "solve_dp c r"
  note si = solve_dp_inv [OF ok, of r]
  then have inv: "dp_inv c ?s" by simp
  have "good c (dp ?s) (optimal_state c (dp ?s))"
    using dp_invD1 [OF inv] solve_dp_any_state [OF ok] by (rule optimal_state_good)
  with o have g: "iStart c \<le> i" "i < W_BOUND c" "0 \<le> j" "j \<le> jHi c" "0 \<le> k" "k \<le> 3"
    "dp ?s (IDX c i j k) \<noteq> NEG_INF"
    and best: "\<And>i' k'. iStart c \<le> i' \<and> i' < W_BOUND c \<and> 0 \<le> k' \<and> k' \<le> 3
        \<Longrightarrow> dp ?s (IDX c i' j k') \<le> dp ?s (IDX c i j k)"
    by (simp_all add: good_def)
  from dp_invD2 [OF inv g(7)] obtain i' j' k' where
    v': "valid c i' j' k'" "IDX c i j k = IDX c i' j' k'" by blast
  have "i = i' \<and> j = j' \<and> k = k'"
    using g v' by (intro IDX_inj [of j c k j' k' i i']) (auto simp: valid_def jHi_def)
  with v' have v: "valid c i j k" by simp
  have "c_W c + 5 \<le> i"
  proof (rule ccontr)
    assume "\<not> c_W c + 5 \<le> i"
    then have lt: "i + 5 < W_BOUND c" by (simp add: W_BOUND_def shoot_def)
    from si v have "expanded c ?s i j k" by blast
    with g(7) lt have "dp ?s (IDX c i j k) + 1 \<le> dp ?s (IDX c (i + 5) j 1)"
      by (simp add: expanded_def)
    moreover have "dp ?s (IDX c (i + 5) j 1) \<le> dp ?s (IDX c i j k)"
      using g(1) lt by (intro best) simp
    ultimately show False by simp
  qed
  with v g show ?thesis by simp
qed
section \<open>The table of a row: indices\<close>

lemma IDX_in_table:
  assumes "0 \<le> i" "i < W_BOUND c" "0 \<le> j" "j < W_BOUND c" "0 \<le> k" "k < 4"
  shows "0 \<le> i * W_BOUND c \<and> i * W_BOUND c + j < W_BOUND c * W_BOUND c
      \<and> 0 \<le> IDX c i j k \<and> IDX c i j k < STATES c"
proof -
  from assms have w: "0 \<le> W_BOUND c" by linarith
  from assms(1) w have a: "0 \<le> i * W_BOUND c" by simp
  from assms(2) have "i \<le> W_BOUND c - 1" by simp
  then have "i * W_BOUND c \<le> (W_BOUND c - 1) * W_BOUND c" using w by (rule mult_right_mono)
  then have b: "i * W_BOUND c + W_BOUND c \<le> W_BOUND c * W_BOUND c" by (simp add: algebra_simps)
  with assms(4) have c: "i * W_BOUND c + j < W_BOUND c * W_BOUND c" by linarith
  from a assms(3,5) have d: "0 \<le> IDX c i j k" by (simp add: IDX_def)
  from c assms(6) have "IDX c i j k < STATES c" by (simp add: IDX_def STATES_def)
  with a c d show ?thesis by simp
qed

lemma valid_in_table: "valid c i j k \<Longrightarrow> 0 \<le> IDX c i j k \<and> IDX c i j k < STATES c"
  using IDX_in_table [of i c j k] by (simp add: valid_def)

lemma solve_dp_in_table:
  assumes "row_ok c" and "dp (solve_dp c r) x \<noteq> NEG_INF"
  shows "0 \<le> x \<and> x < STATES c"
proof -
  from solve_dp_inv [OF assms(1), of r] have "dp_inv c (solve_dp c r)" by simp
  from dp_invD2 [OF this assms(2)] obtain i j k where "valid c i j k" "x = IDX c i j k" by blast
  then show ?thesis using valid_in_table by simp
qed

text \<open>
  The index as the program computes it, in 32-bit two's complement, is the index of
  the model wherever the table fits.
\<close>

lemma IDX_machine:
  assumes "0 \<le> i" "i < W_BOUND c" "0 \<le> j" "j < W_BOUND c" "0 \<le> k" "k < 4"
    and "STATES c \<le> INT_MAX"
  shows "sint ((word_of_int i * word_of_int (W_BOUND c) + word_of_int j) * 4 + word_of_int k :: 32 word)
      = IDX c i j k"
proof -
  from IDX_in_table [OF assms(1-6)] assms(7)
  have r: "- (2 ^ 31) \<le> IDX c i j k" "IDX c i j k < 2 ^ 31" by (simp_all add: INT_MAX_def)
  then have s: "signed_take_bit 31 (IDX c i j k) = IDX c i j k"
    by (rule signed_take_bit_int_eq_self)
  have "((word_of_int i * word_of_int (W_BOUND c) + word_of_int j) * 4 + word_of_int k :: 32 word)
      = word_of_int (IDX c i j k)"
    by (simp add: IDX_def)
  then show ?thesis using s by (simp only: sint_sbintrunc') simp
qed
lemma rand_character_no_newline: "fst (rand_character r) \<noteq> CHR 0x0A"
proof
  assume e: "fst (rand_character r) = CHR 0x0A"
  obtain x r' where d: "draw r = (x, r')" by (cases "draw r")
  let ?n = "97 + int (x mod 26)"
  from e d have "char_of ?n = CHR 0x0A" by (simp add: rand_character_def dist_def)
  then have "(of_char (char_of ?n) :: int) = of_char (CHR 0x0A)" by simp
  then have "?n mod 256 = 10" by simp
  moreover have "?n mod 256 = ?n" by simp
  ultimately show False by simp
qed

lemma comment_char_no_newline: "fst (comment_char c p_i len t r) \<noteq> CHR 0x0A"
  using rand_character_no_newline [of r]
  by (simp add: comment_char_def Let_def)

lemma comment_fold:
  "length (fst (fold (\<lambda>t (seg, r). case g t r of (ch, r') \<Rightarrow> (seg @ [ch], r')) ts (seg0, r0)))
     = length seg0 + length ts
   \<and> ((\<forall>t r. fst (g t r) \<noteq> x) \<longrightarrow> x \<notin> set seg0 \<longrightarrow>
        x \<notin> set (fst (fold (\<lambda>t (seg, r). case g t r of (ch, r') \<Rightarrow> (seg @ [ch], r')) ts (seg0, r0))))"
proof (induction ts arbitrary: seg0 r0)
  case Nil
  show ?case by simp
next
  case (Cons t ts)
  obtain ch r' where g: "g t r0 = (ch, r')" by (cases "g t r0")
  have "(\<forall>t r. fst (g t r) \<noteq> x) \<Longrightarrow> ch \<noteq> x" using g by (metis fst_conv)
  then show ?case using Cons.IH [of "seg0 @ [ch]" r'] g by auto
qed

lemma comment_seg_length: "0 \<le> len \<Longrightarrow> int (length (fst (comment_seg c p_i len r))) = len"
  unfolding comment_seg_def using comment_fold [of "comment_char c p_i len" "[0 .. len - 1]" "[]" r]
  by simp

lemma comment_seg_no_newline: "CHR 0x0A \<notin> set (fst (comment_seg c p_i len r))"
  unfolding comment_seg_def
  using comment_fold [of "comment_char c p_i len" "[0 .. len - 1]" "[]" r "CHR 0x0A"]
    comment_char_no_newline by simp

lemma adjacent_ok_Nil: "adjacent_ok []"
  by (simp add: adjacent_ok_def)

lemma adjacent_ok_Cons:
  "adjacent_ok (x # xs) \<longleftrightarrow>
     adjacent_ok xs \<and> (\<forall>a b. x = Tok a \<and> xs \<noteq> [] \<and> hd xs = Tok b \<longrightarrow> \<not> needs_separator a b)"
proof
  assume h: "adjacent_ok (x # xs)"
  have "adjacent_ok xs"
    unfolding adjacent_ok_def
  proof (intro allI impI)
    fix m a b assume "Suc m < length xs \<and> xs ! m = Tok a \<and> xs ! Suc m = Tok b"
    then have "Suc (Suc m) < length (x # xs) \<and> (x # xs) ! Suc m = Tok a \<and> (x # xs) ! Suc (Suc m) = Tok b"
      by simp
    with h show "\<not> needs_separator a b" unfolding adjacent_ok_def by blast
  qed
  moreover have "\<not> needs_separator a b" if "x = Tok a \<and> xs \<noteq> [] \<and> hd xs = Tok b" for a b
  proof -
    from that have "Suc 0 < length (x # xs) \<and> (x # xs) ! 0 = Tok a \<and> (x # xs) ! Suc 0 = Tok b"
      by (cases xs) auto
    with h show ?thesis unfolding adjacent_ok_def by blast
  qed
  ultimately show "adjacent_ok xs \<and> (\<forall>a b. x = Tok a \<and> xs \<noteq> [] \<and> hd xs = Tok b \<longrightarrow> \<not> needs_separator a b)"
    by blast
next
  assume h: "adjacent_ok xs \<and> (\<forall>a b. x = Tok a \<and> xs \<noteq> [] \<and> hd xs = Tok b \<longrightarrow> \<not> needs_separator a b)"
  show "adjacent_ok (x # xs)"
    unfolding adjacent_ok_def
  proof (intro allI impI)
    fix m a b assume p: "Suc m < length (x # xs) \<and> (x # xs) ! m = Tok a \<and> (x # xs) ! Suc m = Tok b"
    show "\<not> needs_separator a b"
    proof (cases m)
      case 0
      with p have "x = Tok a" "xs \<noteq> []" "hd xs = Tok b" by (cases xs; simp)+
      with h show ?thesis by blast
    next
      case (Suc m')
      with p have "Suc m' < length xs \<and> xs ! m' = Tok a \<and> xs ! Suc m' = Tok b" by simp
      with h show ?thesis unfolding adjacent_ok_def by blast
    qed
  qed
qed

lemma toks_of_append: "toks_of (xs @ ys) = toks_of xs @ toks_of ys"
  by (induction xs rule: toks_of.induct) auto

lemma row_text_append: "row_text (xs @ ys) = row_text xs @ row_text ys"
  by (simp add: row_text_def)
lemma walk_ok:
  assumes ok: "row_ok c" and inv: "dp_inv c s"
  shows "valid c ci cj ck \<Longrightarrow> dp s (IDX c ci cj ck) \<noteq> NEG_INF \<Longrightarrow> adjacent_ok acc
    \<Longrightarrow> (\<forall>b. acc \<noteq> [] \<and> hd acc = Tok b \<longrightarrow>
            b = token_at c cj \<and> cj < tokens_left_total c \<and> ck \<noteq> 2)
    \<Longrightarrow> \<exists>pre r'. walk c (back_point s) (ci, cj, ck) acc r = Some (pre @ acc, r')
          \<and> int (length (row_text pre)) = ci
          \<and> toks_of pre = List.map (token_at c) [0 .. cj - 1]
          \<and> adjacent_ok (pre @ acc)
          \<and> (\<forall>b \<in> set pre. blob_over (tokens c) b)"
proof (induction "nat ci" arbitrary: ci cj ck acc r rule: less_induct)
  case less
  note v = less.prems(1) and reach = less.prems(2) and adj = less.prems(3) and link = less.prems(4)
  from v have r0: "0 \<le> ci" "0 \<le> cj" "cj \<le> ci" by (simp_all add: valid_def)
  show ?case
  proof (cases "ci > 0 \<or> cj > 0")
    case False
    with r0 have z: "ci = 0" "cj = 0" by simp_all
    have "walk c (back_point s) (ci, cj, ck) acc r = Some ([] @ acc, r)"
      using False by (subst walk.simps) simp
    moreover have "int (length (row_text [])) = ci" using z by (simp add: row_text_def)
    moreover have "toks_of [] = List.map (token_at c) [0 .. cj - 1]" using z by simp
    ultimately show ?thesis using adj by (intro exI [of _ "[]"] exI [of _ r]) simp
  next
    case True
    then have nz: "(ci, cj, ck) \<noteq> (0, 0, 0)" by auto
    obtain p_i p_j p_k where bp: "back_point s (IDX c ci cj ck) = (p_i, p_j, p_k)"
      by (cases "back_point s (IDX c ci cj ck)")
    from dp_invD3 [OF inv v reach nz bp]
    have pv: "valid c p_i p_j p_k" and preach: "dp s (IDX c p_i p_j p_k) \<noteq> NEG_INF"
      and st: "step c (p_i, p_j, p_k) (ci, cj, ck)" by simp_all
    from pv have p0: "0 \<le> p_i" "p_i < W_BOUND c" "0 \<le> p_j" "p_j \<le> p_i" by (simp_all add: valid_def)
    from st have
      "(ck = 0 \<and> ci = p_i + 1 \<and> cj = p_j)
       \<or> (ck = 1 \<and> cj = p_j \<and> 4 \<le> ci - p_i)
       \<or> ((ck = 2 \<or> ck = 3) \<and> cj = p_j + 1 \<and> p_j < tokens_left_total c \<and> p_k \<noteq> 2
            \<and> ci = p_i + int (length (token_at c p_j)) \<and> (ck = 2) = need_sep c p_j)"
      by (simp add: step_def)
    then show ?thesis
    proof (elim disjE)
      assume h: "ck = 0 \<and> ci = p_i + 1 \<and> cj = p_j"
      have w: "walk c (back_point s) (ci, cj, ck) acc r
          = walk c (back_point s) (p_i, p_j, p_k) (Space # acc) r"
        using True bp h p0 by (subst walk.simps) simp
      have "nat p_i < nat ci" using h p0 by simp
      moreover have "adjacent_ok (Space # acc)" using adj by (simp add: adjacent_ok_Cons)
      ultimately obtain pre r' where
        ih: "walk c (back_point s) (p_i, p_j, p_k) (Space # acc) r = Some (pre @ Space # acc, r')"
          "int (length (row_text pre)) = p_i" "toks_of pre = List.map (token_at c) [0 .. p_j - 1]"
          "adjacent_ok (pre @ Space # acc)" "\<forall>b \<in> set pre. blob_over (tokens c) b"
        using less.hyps [of p_i p_j p_k "Space # acc" r] pv preach by auto
      show ?thesis
      proof (intro exI [of _ "pre @ [Space]"] exI [of _ r'] conjI)
        show "walk c (back_point s) (ci, cj, ck) acc r = Some ((pre @ [Space]) @ acc, r')"
          using w ih(1) by simp
        show "int (length (row_text (pre @ [Space]))) = ci"
          using ih(2) h by (simp add: row_text_append) (simp add: row_text_def)
        show "toks_of (pre @ [Space]) = List.map (token_at c) [0 .. cj - 1]"
          using ih(3) h by (simp add: toks_of_append)
        show "adjacent_ok ((pre @ [Space]) @ acc)" using ih(4) by simp
        show "\<forall>b \<in> set (pre @ [Space]). blob_over (tokens c) b" using ih(5) by simp
      qed
    next
      assume h: "ck = 1 \<and> cj = p_j \<and> 4 \<le> ci - p_i"
      obtain seg r1 where cs: "comment_seg c p_i (ci - p_i) r = (seg, r1)"
        by (cases "comment_seg c p_i (ci - p_i) r")
      have w: "walk c (back_point s) (ci, cj, ck) acc r
          = walk c (back_point s) (p_i, p_j, p_k) (Comment seg # acc) r1"
        using True bp h p0 cs by (subst walk.simps) simp
      have seglen: "int (length seg) = ci - p_i"
        using comment_seg_length [of "ci - p_i" c p_i r] h cs by simp
      have segnl: "CHR 0x0A \<notin> set seg" using comment_seg_no_newline [of c p_i "ci - p_i" r] cs by simp
      have "nat p_i < nat ci" using h p0 by simp
      moreover have "adjacent_ok (Comment seg # acc)" using adj by (simp add: adjacent_ok_Cons)
      ultimately obtain pre r' where
        ih: "walk c (back_point s) (p_i, p_j, p_k) (Comment seg # acc) r1 = Some (pre @ Comment seg # acc, r')"
          "int (length (row_text pre)) = p_i" "toks_of pre = List.map (token_at c) [0 .. p_j - 1]"
          "adjacent_ok (pre @ Comment seg # acc)" "\<forall>b \<in> set pre. blob_over (tokens c) b"
        using less.hyps [of p_i p_j p_k "Comment seg # acc" r1] pv preach by auto
      show ?thesis
      proof (intro exI [of _ "pre @ [Comment seg]"] exI [of _ r'] conjI)
        show "walk c (back_point s) (ci, cj, ck) acc r = Some ((pre @ [Comment seg]) @ acc, r')"
          using w ih(1) by simp
        show "int (length (row_text (pre @ [Comment seg]))) = ci"
          using ih(2) seglen by (simp add: row_text_append) (simp add: row_text_def)
        show "toks_of (pre @ [Comment seg]) = List.map (token_at c) [0 .. cj - 1]"
          using ih(3) h by (simp add: toks_of_append)
        show "adjacent_ok ((pre @ [Comment seg]) @ acc)" using ih(4) by simp
        have "seg \<noteq> []" using seglen h by auto
        then show "\<forall>b \<in> set (pre @ [Comment seg]). blob_over (tokens c) b" using ih(5) segnl by simp
      qed
    next
      assume h: "(ck = 2 \<or> ck = 3) \<and> cj = p_j + 1 \<and> p_j < tokens_left_total c \<and> p_k \<noteq> 2
            \<and> ci = p_i + int (length (token_at c p_j)) \<and> (ck = 2) = need_sep c p_j"
      let ?t = "token_at c p_j"
      have tin: "?t \<in> set (tokens c)" using token_at_in_set [OF ok p0(3)] h by simp
      with ok have tne: "?t \<noteq> []" unfolding row_ok_def by blast
      have idx: "c_taken c + p_j < n_tokens c"
        using h p0 by (auto simp: tokens_left_total_def)
      have w: "walk c (back_point s) (ci, cj, ck) acc r
          = walk c (back_point s) (p_i, p_j, p_k) (Tok ?t # acc) r"
        using True bp h p0 idx by (subst walk.simps) auto
      from tne have "0 < length ?t" by simp
      then have lenpos: "1 \<le> int (length ?t)" by linarith
      have "nat p_i < nat ci" using h p0 lenpos by linarith
      moreover have "adjacent_ok (Tok ?t # acc)"
      proof -
        have "\<not> needs_separator ?t b" if b: "acc \<noteq> [] \<and> hd acc = Tok b" for b
        proof -
          from link b have l: "b = token_at c cj" "cj < tokens_left_total c" "ck \<noteq> 2" by blast+
          from l(3) h have "\<not> need_sep c p_j" by simp
          moreover have "c_taken c + p_j + 1 < n_tokens c"
            using l(2) h r0 by (auto simp: tokens_left_total_def)
          ultimately have "\<not> needs_separator ?t (token_at c (p_j + 1))"
            by (simp add: need_sep_def)
          with l(1) h show ?thesis by simp
        qed
        with adj show ?thesis by (simp add: adjacent_ok_Cons)
      qed
      moreover have "\<forall>b. Tok ?t # acc \<noteq> [] \<and> hd (Tok ?t # acc) = Tok b \<longrightarrow>
            b = token_at c p_j \<and> p_j < tokens_left_total c \<and> p_k \<noteq> 2"
        using h by simp
      ultimately obtain pre r' where
        ih: "walk c (back_point s) (p_i, p_j, p_k) (Tok ?t # acc) r = Some (pre @ Tok ?t # acc, r')"
          "int (length (row_text pre)) = p_i" "toks_of pre = List.map (token_at c) [0 .. p_j - 1]"
          "adjacent_ok (pre @ Tok ?t # acc)" "\<forall>b \<in> set pre. blob_over (tokens c) b"
        using less.hyps [of p_i p_j p_k "Tok ?t # acc" r] pv preach by auto
      have up: "[0 .. cj - 1] = [0 .. p_j - 1] @ [p_j]"
        using h p0 upto_rec2 [of 0 p_j] by simp
      show ?thesis
      proof (intro exI [of _ "pre @ [Tok ?t]"] exI [of _ r'] conjI)
        show "walk c (back_point s) (ci, cj, ck) acc r = Some ((pre @ [Tok ?t]) @ acc, r')"
          using w ih(1) by simp
        show "int (length (row_text (pre @ [Tok ?t]))) = ci"
          using ih(2) h by (simp add: row_text_append) (simp add: row_text_def)
        show "toks_of (pre @ [Tok ?t]) = List.map (token_at c) [0 .. cj - 1]"
          using ih(3) up by (simp add: toks_of_append)
        show "adjacent_ok ((pre @ [Tok ?t]) @ acc)" using ih(4) by simp
        show "\<forall>b \<in> set (pre @ [Tok ?t]). blob_over (tokens c) b" using ih(5) tin by simp
      qed
    qed
  qed
qed
lemma solve_row_ok:
  assumes ok: "row_ok c"
  shows "\<exists>this_row j r'. solve_row c r = Some (this_row, j, r')
      \<and> 0 \<le> j \<and> j \<le> tokens_left_total c
      \<and> c_W c + 5 \<le> int (length (row_text this_row))
      \<and> int (length (row_text this_row)) < W_BOUND c
      \<and> toks_of this_row = List.map (token_at c) [0 .. j - 1]
      \<and> adjacent_ok this_row
      \<and> (\<forall>b \<in> set this_row. blob_over (tokens c) b)"
proof -
  let ?s = "solve_dp c r"
  obtain i j k where o: "optimal_state c (dp ?s) = (i, j, k)"
    by (cases "optimal_state c (dp ?s)") auto
  from optimal_state_solved [OF ok o]
  have v: "valid c i j k" and reach: "dp ?s (IDX c i j k) \<noteq> NEG_INF"
    and w: "c_W c + 5 \<le> i" "i < W_BOUND c" by simp_all
  have inv: "dp_inv c ?s" using solve_dp_inv [OF ok, of r] by simp
  from walk_ok [OF ok inv v reach adjacent_ok_Nil, of "rng ?s"]
  obtain pre r' where
    p: "walk c (back_point ?s) (i, j, k) [] (rng ?s) = Some (pre @ [], r')"
      "int (length (row_text pre)) = i" "toks_of pre = List.map (token_at c) [0 .. j - 1]"
      "adjacent_ok (pre @ [])" "\<forall>b \<in> set pre. blob_over (tokens c) b"
    by auto
  have "solve_row c r = Some (pre, j, r')"
    using o p(1) by (simp add: solve_row_def Let_def)
  moreover from v have "0 \<le> j" "j \<le> tokens_left_total c" by (simp_all add: valid_def)
  ultimately show ?thesis using p w by auto
qed

lemma adjacent_ok_snoc:
  "adjacent_ok (xs @ [x]) \<longleftrightarrow>
     adjacent_ok xs \<and> (\<forall>a b. xs \<noteq> [] \<and> last xs = Tok a \<and> x = Tok b \<longrightarrow> \<not> needs_separator a b)"
proof
  assume h: "adjacent_ok (xs @ [x])"
  have "adjacent_ok xs"
    unfolding adjacent_ok_def
  proof (intro allI impI)
    fix m a b assume p: "Suc m < length xs \<and> xs ! m = Tok a \<and> xs ! Suc m = Tok b"
    then have "Suc m < length (xs @ [x]) \<and> (xs @ [x]) ! m = Tok a \<and> (xs @ [x]) ! Suc m = Tok b"
      by (simp add: nth_append)
    with h show "\<not> needs_separator a b" unfolding adjacent_ok_def by blast
  qed
  moreover have "\<not> needs_separator a b" if t: "xs \<noteq> [] \<and> last xs = Tok a \<and> x = Tok b" for a b
  proof -
    from t obtain m where m: "length xs = Suc m" by (cases xs) auto
    from t have ne: "xs \<noteq> []" by simp
    have "last xs = xs ! (length xs - 1)" using ne by (rule last_conv_nth)
    with m t have "xs ! m = Tok a" by simp
    with m t have "Suc m < length (xs @ [x]) \<and> (xs @ [x]) ! m = Tok a \<and> (xs @ [x]) ! Suc m = Tok b"
      by (simp add: nth_append)
    with h show ?thesis unfolding adjacent_ok_def by blast
  qed
  ultimately show "adjacent_ok xs
      \<and> (\<forall>a b. xs \<noteq> [] \<and> last xs = Tok a \<and> x = Tok b \<longrightarrow> \<not> needs_separator a b)"
    by blast
next
  assume h: "adjacent_ok xs
      \<and> (\<forall>a b. xs \<noteq> [] \<and> last xs = Tok a \<and> x = Tok b \<longrightarrow> \<not> needs_separator a b)"
  show "adjacent_ok (xs @ [x])"
    unfolding adjacent_ok_def
  proof (intro allI impI)
    fix m a b
    assume p: "Suc m < length (xs @ [x]) \<and> (xs @ [x]) ! m = Tok a \<and> (xs @ [x]) ! Suc m = Tok b"
    show "\<not> needs_separator a b"
    proof (cases "Suc m < length xs")
      case True
      with p have "Suc m < length xs \<and> xs ! m = Tok a \<and> xs ! Suc m = Tok b"
        by (simp add: nth_append)
      with h show ?thesis unfolding adjacent_ok_def by blast
    next
      case False
      with p have m: "length xs = Suc m" by simp
      with p have "xs ! m = Tok a" "x = Tok b" by (simp_all add: nth_append)
      moreover from m have ne: "xs \<noteq> []" by auto
      moreover have "last xs = xs ! (length xs - 1)" using ne by (rule last_conv_nth)
      moreover note m
      ultimately show ?thesis using h by simp
    qed
  qed
qed

lemma overflow_loop_ok:
  "\<forall>t \<in> set toks. t \<noteq> [] \<and> int (length t) < WB \<Longrightarrow> W_eff < WB
    \<Longrightarrow> 0 \<le> tk \<Longrightarrow> col = int (length (row_text line)) \<Longrightarrow> col \<le> W_eff
    \<Longrightarrow> (line = [] \<and> prev = []) \<or> (line \<noteq> [] \<and> last line = Tok prev \<and> prev \<noteq> [])
    \<Longrightarrow> adjacent_ok line \<Longrightarrow> \<forall>b \<in> set line. blob_over toks b
    \<Longrightarrow> (case overflow_loop toks W_eff tk line col prev of
          (line', tk') \<Rightarrow>
            tk \<le> tk' \<and> (tk \<le> int (length toks) \<longrightarrow> tk' \<le> int (length toks))
            \<and> int (length (row_text line')) < WB
            \<and> (tk < int (length toks) \<or> line \<noteq> [] \<longrightarrow> line' \<noteq> [] \<and> row_text line' \<noteq> [])
            \<and> adjacent_ok line'
            \<and> toks_of line' = toks_of line @ List.map (\<lambda>m. toks ! nat m) [tk .. tk' - 1]
            \<and> (\<forall>b \<in> set line'. blob_over toks b))"
proof (induction toks W_eff tk line col prev rule: overflow_loop.induct)
  case (1 toks W_eff tk line col prev)
  note toks = "1.prems"(1) and weff = "1.prems"(2) and tk0 = "1.prems"(3) and col = "1.prems"(4)
    and colw = "1.prems"(5) and link = "1.prems"(6) and adj = "1.prems"(7) and over = "1.prems"(8)
  have linetext: "row_text line \<noteq> []" if "line \<noteq> []"
  proof -
    from that link have l: "last line = Tok prev" "prev \<noteq> []" by simp_all
    from that have "line = butlast line @ [last line]" by simp
    with l(1) have "row_text line = row_text (butlast line @ [Tok prev])" by simp
    then have "row_text line = row_text (butlast line) @ prev" by (simp add: row_text_def)
    with l(2) show ?thesis by simp
  qed
  show ?case
  proof (cases "tk < int (length toks)")
    case False
    have "overflow_loop toks W_eff tk line col prev = (line, tk)"
      using False by (subst overflow_loop.simps) simp
    moreover have "[tk .. tk - 1] = []" by simp
    ultimately show ?thesis using False col colw weff adj over linetext by simp
  next
    case True
    let ?tok = "toks ! nat tk"
    let ?sep = "if prev \<noteq> [] \<and> needs_separator prev ?tok then 1 else 0 :: int"
    let ?placed = "line @ (if ?sep \<noteq> 0 then [Space] else []) @ [Tok ?tok]"
    let ?col' = "col + ?sep + int (length ?tok)"
    have tin: "?tok \<in> set toks" using True tk0 by simp
    with toks have tne: "?tok \<noteq> []" and tlen: "int (length ?tok) < WB" by blast+
    have ptext: "row_text ?placed = row_text line @ (if ?sep \<noteq> 0 then [CHR '' ''] else []) @ ?tok"
      by (simp add: row_text_def)
    then have plen: "int (length (row_text ?placed)) = ?col'" using col by simp
    have pne: "?placed \<noteq> []" "row_text ?placed \<noteq> []" using tne ptext by simp_all
    have padj: "adjacent_ok ?placed"
    proof (cases "?sep \<noteq> 0")
      case True
      have "adjacent_ok (line @ [Space])" using adj by (simp add: adjacent_ok_snoc)
      then have "adjacent_ok ((line @ [Space]) @ [Tok ?tok])" by (subst adjacent_ok_snoc) simp
      with True show ?thesis by simp
    next
      case False
      then have ns: "prev \<noteq> [] \<Longrightarrow> \<not> needs_separator prev ?tok" by (simp split: if_splits)
      have "\<not> needs_separator a b" if "line \<noteq> [] \<and> last line = Tok a \<and> Tok ?tok = Tok b" for a b
        using that link ns by auto
      with adj have "adjacent_ok (line @ [Tok ?tok])" by (subst adjacent_ok_snoc) simp
      with False show ?thesis by simp
    qed
    have pover: "\<forall>b \<in> set ?placed. blob_over toks b" using over tin by simp
    have ptoks: "toks_of ?placed = toks_of line @ [?tok]" by (simp add: toks_of_append)
    show ?thesis
    proof (cases "col + (?sep + int (length ?tok)) > W_eff")
      case big: True
      show ?thesis
      proof (cases "col = 0")
        case c0: True
        have e: "overflow_loop toks W_eff tk line col prev = (?placed, tk + 1)"
          using True big c0 by (subst overflow_loop.simps) (simp add: Let_def)
        from c0 col have "row_text line = []" by simp
        with linetext have "line = []" by blast
        with link have "prev = []" by simp
        then have "?sep = 0" by simp
        with plen c0 tlen have "int (length (row_text ?placed)) < WB" by simp
        moreover have "[tk .. tk + 1 - 1] = [tk]" by simp
        ultimately show ?thesis using e True pne padj pover ptoks by simp
      next
        case cn: False
        have e: "overflow_loop toks W_eff tk line col prev = (line, tk)"
          using True big cn by (subst overflow_loop.simps) (simp add: Let_def)
        from cn col have "line \<noteq> []" by (auto simp: row_text_def)
        moreover have "[tk .. tk - 1] = []" by simp
        ultimately show ?thesis using e True col colw weff adj over linetext by simp
      qed
    next
      case small: False
      have e: "overflow_loop toks W_eff tk line col prev
          = overflow_loop toks W_eff (tk + 1) ?placed ?col' ?tok"
        using True small by (subst overflow_loop.simps) (simp add: Let_def)
      have ih: "case overflow_loop toks W_eff (tk + 1) ?placed ?col' ?tok of
          (line', tk') \<Rightarrow>
            tk + 1 \<le> tk' \<and> (tk + 1 \<le> int (length toks) \<longrightarrow> tk' \<le> int (length toks))
            \<and> int (length (row_text line')) < WB
            \<and> (tk + 1 < int (length toks) \<or> ?placed \<noteq> [] \<longrightarrow> line' \<noteq> [] \<and> row_text line' \<noteq> [])
            \<and> adjacent_ok line'
            \<and> toks_of line' = toks_of ?placed @ List.map (\<lambda>m. toks ! nat m) [tk + 1 .. tk' - 1]
            \<and> (\<forall>b \<in> set line'. blob_over toks b)"
      proof (rule "1.IH" [OF True refl refl refl refl _ toks weff])
        show "\<not> W_eff < col + (?sep + int (length ?tok))" using small by simp
        show "0 \<le> tk + 1" using tk0 by simp
        show "?col' = int (length (row_text ?placed))" using plen by simp
        show "?col' \<le> W_eff" using small by simp
        show "(?placed = [] \<and> ?tok = []) \<or> (?placed \<noteq> [] \<and> last ?placed = Tok ?tok \<and> ?tok \<noteq> [])"
          using tne by simp
        show "adjacent_ok ?placed" by (rule padj)
        show "\<forall>b \<in> set ?placed. blob_over toks b" by (rule pover)
      qed
      obtain line' tk' where r: "overflow_loop toks W_eff (tk + 1) ?placed ?col' ?tok = (line', tk')"
        by (cases "overflow_loop toks W_eff (tk + 1) ?placed ?col' ?tok")
      with ih pne have f: "tk + 1 \<le> tk'" "tk' \<le> int (length toks)"
        "int (length (row_text line')) < WB" "line' \<noteq> []" "row_text line' \<noteq> []" "adjacent_ok line'"
        "toks_of line' = toks_of ?placed @ List.map (\<lambda>m. toks ! nat m) [tk + 1 .. tk' - 1]"
        "\<forall>b \<in> set line'. blob_over toks b"
        using True by simp_all
      have "[tk .. tk' - 1] = tk # [tk + 1 .. tk' - 1]" using f(1) by (simp add: upto_rec1)
      with f(7) ptoks have "toks_of line' = toks_of line @ List.map (\<lambda>m. toks ! nat m) [tk .. tk' - 1]"
        by simp
      with f e r show ?thesis by simp
    qed
  qed
qed
lemma fold_max_length:
  "fold (\<lambda>t maxl. max maxl (int (length t))) toks m0 < B \<longleftrightarrow>
     m0 < B \<and> (\<forall>t \<in> set toks. int (length t) < B)"
  by (induction toks arbitrary: m0) auto

lemma precondition_row_ok:
  assumes "precondition toks W H target_density" "0 \<le> taken st" "taken st \<le> int (length toks)"
  shows "row_ok (row_ctx toks W H target_density density_map st)"
  using assms
  by (auto simp: precondition_def row_ok_def row_ctx_def W_BOUND_def n_tokens_def
      fold_max_length list_all_iff)

lemma nth_upto_slice:
  "0 \<le> a \<Longrightarrow> a \<le> b \<Longrightarrow> b \<le> int (length xs)
    \<Longrightarrow> take (nat a) xs @ List.map (\<lambda>m. xs ! nat m) [a .. b - 1] = take (nat b) xs"
proof (induction "nat (b - a)" arbitrary: b)
  case 0
  then have "b = a" by simp
  then show ?case by simp
next
  case (Suc d)
  then have lt: "a \<le> b - 1" "nat (b - 1) < length xs" "d = nat (b - 1 - a)" by simp_all
  have up: "[a .. b - 1] = [a .. b - 1 - 1] @ [b - 1]" using lt(1) by (rule upto_rec2)
  have ih: "take (nat a) xs @ List.map (\<lambda>m. xs ! nat m) [a .. b - 1 - 1] = take (nat (b - 1)) xs"
    using Suc.hyps(1) [OF lt(3) Suc.prems(1) lt(1)] Suc.prems(3) by simp
  have "take (nat b) xs = take (Suc (nat (b - 1))) xs" using lt(1) Suc.prems(1) by (simp add: Suc_nat_eq_nat_zadd1)
  also have "\<dots> = take (nat (b - 1)) xs @ [xs ! nat (b - 1)]"
    using lt(2) by (rule take_Suc_conv_app_nth)
  finally show ?case using ih up by simp
qed

lemma map_add_upto: "List.map (\<lambda>m. tk + m) [i .. j] = [tk + i .. tk + j]"
proof (induction i j rule: upto.induct)
  case (1 i j)
  show ?case
  proof (cases "i \<le> j")
    case True
    then have "[i .. j] = i # [i + 1 .. j]" "[tk + i .. tk + j] = (tk + i) # [tk + i + 1 .. tk + j]"
      by (simp_all add: upto_rec1)
    then show ?thesis using "1.IH" [OF True] by (simp add: add.assoc)
  next
    case False
    then show ?thesis by simp
  qed
qed

lemma row_tokens_slice:
  assumes "0 \<le> tk" "0 \<le> j" "tk + j \<le> int (length toks)"
  shows "take (nat tk) toks @ List.map (\<lambda>m. toks ! nat (tk + m)) [0 .. j - 1] = take (nat (tk + j)) toks"
proof -
  have "List.map (\<lambda>m. toks ! nat (tk + m)) [0 .. j - 1] = List.map (\<lambda>m. toks ! nat m) [tk .. tk + j - 1]"
  proof -
    have "[tk .. tk + j - 1] = List.map (\<lambda>m. tk + m) [0 .. j - 1]"
      using map_add_upto [of tk 0 "j - 1"] by (simp add: algebra_simps)
    then show ?thesis by (simp add: comp_def)
  qed
  then show ?thesis using nth_upto_slice [of tk "tk + j" toks] assms by simp
qed
lemma w_extra_dist_range: "w_extra_dist r = (x, r') \<Longrightarrow> 0 \<le> x \<and> x < shoot"
  by (auto simp: w_extra_dist_def draw_def shoot_def)

lemma loop_body_ok:
  assumes pre: "precondition toks W H td" and fits: "table_fits W H"
    and inv: "loop_inv toks W H st"
    and cond: "taken st < int (length toks) \<or> row st < H"
  shows "\<exists>st'. loop_body toks W H td dm st = Some (Inr st') \<and> loop_inv toks W H st'
      \<and> round_ok toks H st st'"
proof -
  let ?n = "int (length toks)"
  from inv have i: "0 \<le> taken st" "taken st \<le> ?n" "int (length (waifu st)) = row st"
    "concat (List.map toks_of (waifu st)) = take (nat (taken st)) toks"
    "\<forall>m < length (waifu st). band_width W H m (waifu st ! m)"
    "\<forall>line \<in> set (waifu st). adjacent_ok line \<and> (\<forall>b \<in> set line. blob_over toks b)"
    by (simp_all add: loop_inv_def)
  from pre have p: "min_width < W + shoot" "\<forall>t \<in> set toks. t \<noteq> [] \<and> int (length t) < W + shoot"
    by (auto simp: precondition_def fold_max_length list_all_iff)
  have newrow: "loop_inv toks W H \<lparr> taken = tk', row = row st + 1, waifu = waifu st @ [line], gen = g \<rparr>"
    if "taken st \<le> tk'" "tk' \<le> ?n" "band_width W H (length (waifu st)) line" "adjacent_ok line"
      "\<forall>b \<in> set line. blob_over toks b" "take (nat (taken st)) toks @ toks_of line = take (nat tk') toks"
    for tk' line g
    unfolding loop_inv_def using that i by (auto simp: nth_append less_Suc_eq)
  show ?thesis
  proof (cases "row st \<ge> H")
    case True
    with cond have t: "taken st < ?n" by simp
    obtain x r' where xr: "w_extra_dist (gen st) = (x, r')" by (cases "w_extra_dist (gen st)")
    from w_extra_dist_range [OF xr] have x: "0 \<le> x" "x < shoot" by simp_all
    obtain line tk' where lt: "overflow_loop toks (W + x) (taken st) [] 0 [] = (line, tk')"
      by (cases "overflow_loop toks (W + x) (taken st) [] 0 []")
    have "case overflow_loop toks (W + x) (taken st) [] 0 [] of
          (line', tk') \<Rightarrow>
            taken st \<le> tk' \<and> (taken st \<le> ?n \<longrightarrow> tk' \<le> ?n)
            \<and> int (length (row_text line')) < W + shoot
            \<and> (taken st < ?n \<or> ([]::blob list) \<noteq> [] \<longrightarrow> line' \<noteq> [] \<and> row_text line' \<noteq> [])
            \<and> adjacent_ok line'
            \<and> toks_of line' = toks_of [] @ List.map (\<lambda>m. toks ! nat m) [taken st .. tk' - 1]
            \<and> (\<forall>b \<in> set line'. blob_over toks b)"
    proof (rule overflow_loop_ok [OF p(2)])
      show "W + x < W + shoot" using x by simp
      show "0 \<le> taken st" by (rule i(1))
      show "0 = int (length (row_text []))" by (simp add: row_text_def)
      show "0 \<le> W + x" using p(1) x by (simp add: min_width_def shoot_def)
      show "([] = [] \<and> [] = []) \<or> ([] \<noteq> [] \<and> last [] = Tok [] \<and> [] \<noteq> [])" by simp
      show "adjacent_ok []" by (rule adjacent_ok_Nil)
      show "\<forall>b \<in> set []. blob_over toks b" by simp
    qed
    with lt t i(2) have o: "taken st \<le> tk'" "tk' \<le> ?n" "int (length (row_text line)) < W + shoot"
      "row_text line \<noteq> []" "adjacent_ok line"
      "toks_of line = List.map (\<lambda>m. toks ! nat m) [taken st .. tk' - 1]"
      "\<forall>b \<in> set line. blob_over toks b"
      by simp_all
    from overflow_loop_progress [OF t, of "W + x" "[]" "[]"] lt have strict: "taken st < tk'" by simp
    let ?st' = "\<lparr> taken = tk', row = row st + 1, waifu = waifu st @ [line], gen = r' \<rparr>"
    have body: "loop_body toks W H td dm st = Some (Inr ?st')"
      using True xr lt by (simp add: loop_body_def)
    from o(4) have "1 \<le> int (length (row_text line))" by (cases "row_text line") simp_all
    with o(3) True i(3) have bw: "band_width W H (length (waifu st)) line"
      by (simp add: band_width_def)
    have sl: "take (nat (taken st)) toks @ toks_of line = take (nat tk') toks"
      unfolding o(6) using i(1) o(1,2) by (rule nth_upto_slice)
    have "loop_inv toks W H ?st'" using o(1,2) bw o(5,7) sl by (rule newrow)
    moreover have "round_ok toks H st ?st'" using cond strict o(2) by (simp add: round_ok_def)
    ultimately show ?thesis using body by blast
  next
    case False
    let ?c = "row_ctx toks W H td dm st"
    have ok: "row_ok ?c" using pre i(1,2) by (rule precondition_row_ok)
    have cf: "tokens ?c = toks" "c_W ?c = W" "c_taken ?c = taken st" "W_BOUND ?c = W + shoot"
      "tokens_left_total ?c = ?n - taken st"
      using i(2) by (simp_all add: row_ctx_def W_BOUND_def tokens_left_total_def n_tokens_def)
    from solve_row_ok [OF ok, of "gen st"] obtain this_row j r' where
      sr: "solve_row ?c (gen st) = Some (this_row, j, r')"
      and j: "0 \<le> j" "j \<le> ?n - taken st"
      and w: "W + 5 \<le> int (length (row_text this_row))" "int (length (row_text this_row)) < W + shoot"
      and tk: "toks_of this_row = List.map (token_at ?c) [0 .. j - 1]"
      and adj: "adjacent_ok this_row" and over: "\<forall>b \<in> set this_row. blob_over toks b"
      unfolding cf by blast
    let ?st' = "\<lparr> taken = taken st + j, row = row st + 1, waifu = waifu st @ [this_row], gen = r' \<rparr>"
    from i(3) have "0 \<le> row st" by linarith
    with False fits have "(W + shoot) * (W + shoot) * 4 \<le> INT_MAX" by (simp add: table_fits_def)
    then have st: "\<not> INT_MAX < STATES ?c" by (simp add: STATES_def cf)
    have body: "loop_body toks W H td dm st = Some (Inr ?st')"
      using False sr st by (simp add: loop_body_def)
    have bw: "band_width W H (length (waifu st)) this_row"
      using w False i(3) by (simp add: band_width_def)
    have "toks_of this_row = List.map (\<lambda>m. toks ! nat (taken st + m)) [0 .. j - 1]"
      unfolding tk by (simp add: token_at_def row_ctx_def)
    then have sl: "take (nat (taken st)) toks @ toks_of this_row = take (nat (taken st + j)) toks"
      using row_tokens_slice [OF i(1) j(1), of toks] j(2) by simp
    have "loop_inv toks W H ?st'" using _ _ bw adj over sl by (rule newrow) (use j in simp_all)
    moreover have "round_ok toks H st ?st'" using cond False j by (simp add: round_ok_def)
    ultimately show ?thesis using body by blast
  qed
qed

lemma layout_loop_ok:
  "precondition toks W H td \<Longrightarrow> table_fits W H \<Longrightarrow> loop_inv toks W H st
    \<Longrightarrow> \<exists>fin. layout_loop toks W H td dm st = Some (Inr fin) \<and> loop_inv toks W H fin
          \<and> taken fin = int (length toks) \<and> H \<le> row fin
          \<and> layout_trace toks W H td dm st \<noteq> []
          \<and> hd (layout_trace toks W H td dm st) = st
          \<and> last (layout_trace toks W H td dm st) = fin
          \<and> (\<forall>m. Suc m < length (layout_trace toks W H td dm st) \<longrightarrow>
                round_ok toks H (layout_trace toks W H td dm st ! m)
                  (layout_trace toks W H td dm st ! Suc m))"
proof (induction toks W H td dm st rule: layout_loop.induct)
  case (1 toks W H td dm st)
  note pre = "1.prems"(1) and fits = "1.prems"(2) and inv = "1.prems"(3)
  show ?case
  proof (cases "taken st < int (length toks) \<or> row st < H")
    case False
    have l: "layout_loop toks W H td dm st = Some (Inr st)" using False by (subst layout_loop.simps) simp
    have t: "layout_trace toks W H td dm st = [st]" using False by (subst layout_trace.simps) simp
    from inv have "taken st \<le> int (length toks)" by (simp add: loop_inv_def)
    with False have "taken st = int (length toks)" "H \<le> row st" by simp_all
    with l t inv show ?thesis by simp
  next
    case True
    from loop_body_ok [OF pre fits inv True, of dm] obtain st' where
      b: "loop_body toks W H td dm st = Some (Inr st')" and inv': "loop_inv toks W H st'"
      and r: "round_ok toks H st st'" by blast
    let ?tr' = "layout_trace toks W H td dm st'"
    from "1.IH" [OF True b refl pre fits inv'] obtain fin where
      f: "layout_loop toks W H td dm st' = Some (Inr fin)" "loop_inv toks W H fin"
        "taken fin = int (length toks)" "H \<le> row fin" "?tr' \<noteq> []" "hd ?tr' = st'" "last ?tr' = fin"
        "\<forall>m. Suc m < length ?tr' \<longrightarrow> round_ok toks H (?tr' ! m) (?tr' ! Suc m)"
      by blast
    have l: "layout_loop toks W H td dm st = Some (Inr fin)"
      using True b f(1) by (subst layout_loop.simps) simp
    have t: "layout_trace toks W H td dm st = st # ?tr'"
      using True b by (subst layout_trace.simps) simp
    have steps: "round_ok toks H ((st # ?tr') ! m) ((st # ?tr') ! Suc m)"
      if "Suc m < length (st # ?tr')" for m
    proof (cases m)
      case 0
      with f(5,6) r show ?thesis by (cases ?tr') simp_all
    next
      case (Suc m')
      with that f(8) show ?thesis by simp
    qed
    show ?thesis
      unfolding t using l f(2-5,7) steps by simp
  qed
qed




lemma loop_inv_initial: "loop_inv toks W H (initial_state seed)"
  by (simp add: loop_inv_def initial_state_def)

lemma convert_layout_run:
  assumes pre: "precondition toks W H td" and fits: "table_fits W H"
  shows "\<exists>fin. layout_loop toks W H td dm (initial_state seed) = Some (Inr fin)
      \<and> convert_layout toks W H td dm seed = Some (Inr (render (waifu fin)))
      \<and> loop_inv toks W H fin \<and> taken fin = int (length toks) \<and> H \<le> row fin
      \<and> layout_trace toks W H td dm (initial_state seed) \<noteq> []
      \<and> hd (layout_trace toks W H td dm (initial_state seed)) = initial_state seed
      \<and> last (layout_trace toks W H td dm (initial_state seed)) = fin
      \<and> (\<forall>m. Suc m < length (layout_trace toks W H td dm (initial_state seed)) \<longrightarrow>
            round_ok toks H (layout_trace toks W H td dm (initial_state seed) ! m)
              (layout_trace toks W H td dm (initial_state seed) ! Suc m))"
proof -
  from layout_loop_ok [OF pre fits loop_inv_initial, of dm seed] obtain fin where
    f: "layout_loop toks W H td dm (initial_state seed) = Some (Inr fin)" "loop_inv toks W H fin"
      "taken fin = int (length toks)" "H \<le> row fin"
      "layout_trace toks W H td dm (initial_state seed) \<noteq> []"
      "hd (layout_trace toks W H td dm (initial_state seed)) = initial_state seed"
      "last (layout_trace toks W H td dm (initial_state seed)) = fin"
      "\<forall>m. Suc m < length (layout_trace toks W H td dm (initial_state seed)) \<longrightarrow>
            round_ok toks H (layout_trace toks W H td dm (initial_state seed) ! m)
              (layout_trace toks W H td dm (initial_state seed) ! Suc m)"
    by blast
  from pre have a: "max min_width (fold (\<lambda>t maxl. max maxl (int (length t))) toks 0) < W + shoot"
    and h: "0 \<le> H" by (auto simp: precondition_def grid_ok_def)
  have "convert_layout toks W H td dm seed = Some (Inr (render (waifu fin)))"
    using a h f(1) by (simp add: convert_layout_def Let_def)
  with f show ?thesis by blast
qed


lemma tokenize_loop_nonempty: "t \<in> set (tokenize_loop s) \<Longrightarrow> t \<noteq> []"
proof (induction s rule: tokenize_loop.induct)
  case 1
  then show ?case by simp
next
  case (2 c cs)
  show ?case
  proof (cases "isspace c")
    case True
    with 2 show ?thesis by simp
  next
    case False
    have pos: "0 < next_token_len (c # cs)" by (rule next_token_len_pos)
    from False 2(3) have "t = take (next_token_len (c # cs)) (c # cs)
        \<or> t \<in> set (tokenize_loop (drop (next_token_len (c # cs)) (c # cs)))"
      by (simp add: Let_def)
    then show ?thesis
    proof
      assume "t = take (next_token_len (c # cs)) (c # cs)"
      with pos show ?thesis by (cases "next_token_len (c # cs)") simp_all
    next
      assume "t \<in> set (tokenize_loop (drop (next_token_len (c # cs)) (c # cs)))"
      with 2(2) [OF False refl] show ?thesis by simp
    qed
  qed
qed

lemma tokenize_minimal_cpp_nonempty: "list_all (\<lambda>t. t \<noteq> []) (tokenize_minimal_cpp code)"
  using tokenize_loop_nonempty by (auto simp: tokenize_minimal_cpp_def list_all_iff)

lemma parse_art_grid:
  "parse_art_to_density t wo ho m = Inr art \<Longrightarrow> grid_ok (art_W art) (art_H art) (density art)"
  unfolding parse_art_to_density_def Let_def
  by (auto simp: grid_ok_def list_all_iff split: if_splits)
lemma read_file_missing: "files w path = None \<Longrightarrow> read_file w path = []"
  by (simp add: read_file_def)

lemma strip_comments_empty: "strip_comments_preserve_literals [] = []"
  by (simp add: strip_comments_preserve_literals_def)

lemma tokens_of_empty: "tokenize_minimal_cpp (strip_comments_preserve_literals []) = []"
  by (simp add: strip_comments_empty tokenize_minimal_cpp_def)

lemma main_exit_0:
  assumes args: "parse_args argv = Parsed args" and wr: "writable w (arg_out args)"
    and art: "parse_art_to_density (read_file w (arg_art args)) (arg_width args) (arg_height args)
        (Some default_ascii_density_01) = Inr art"
    and wide: "max min_width (fold (\<lambda>t maxl. max maxl (int (length t)))
        (tokenize_minimal_cpp (strip_comments_preserve_literals (read_file w (arg_code args)))) 0)
          < art_W art + shoot"
    and fits: "table_fits (art_W art) (art_H art)"
  shows "\<exists>output. main argv w seed = Some (Exited 0 (Some (arg_out args, output)))"
proof -
  let ?toks = "tokenize_minimal_cpp (strip_comments_preserve_literals (read_file w (arg_code args)))"
  have pre: "precondition ?toks (art_W art) (art_H art) (density art)"
    unfolding precondition_def
    using wide tokenize_minimal_cpp_nonempty parse_art_grid [OF art] by simp
  from convert_layout_run [OF pre fits, of default_ascii_density_01 seed] obtain fin :: loop_state where
    "convert_layout ?toks (art_W art) (art_H art) (density art) default_ascii_density_01 seed
       = Some (Inr (render (waifu fin)))"
    by blast
  then have "main argv w seed = Some (Exited 0 (Some (arg_out args, render (waifu fin))))"
    using args wr art by (simp add: main_def Let_def)
  then show ?thesis by blast
qed

lemma parse_art_empty:
  "parse_art_to_density [] None None dmap = Inr \<lparr> art_W = 0, art_H = 1, density = [[]] \<rparr>"
  by (simp add: parse_art_to_density_def art_lines_def split_lines_Nil Let_def)

lemma convert_layout_narrow:
  "W \<le> 70 \<Longrightarrow> convert_layout toks W H td dm seed = Some (Inl AssertionFailed)"
  by (simp add: convert_layout_def Let_def min_width_def shoot_def)

lemma main_abort:
  assumes args: "parse_args argv = Parsed args" and "files w (arg_art args) = None"
    and "arg_width args = None" and "arg_height args = None"
  shows "main argv w seed = Some (Aborted AssertionFailed)"
  using assms
  by (simp add: main_def Let_def read_file_missing parse_art_empty convert_layout_narrow)

section \<open>Properties of the separator oracle\<close>

text \<open>
  Claim C10. If \<open>a\<close> is empty or \<open>b\<close> is empty, \<^verbatim>\<open>needs_separator(a, b)\<close> is false:
  the guard on the first line of the function returns before any hazard rule is
  looked at.
\<close>

theorem needs_separator_empty:
  "a = [] \<or> b = [] \<Longrightarrow> needs_separator a b = False"
  by (simp add: needs_separator_def)

theorem needs_separator_empty_witness:
  "(''int'' = [] \<or> ('''' :: string) = []) \<and> needs_separator ''int'' '''' = False
   \<and> needs_separator '''' ''x'' = False"
  using needs_separator_empty [of "''int''" "''''"] needs_separator_empty [of "''''" "''x''"]
  by simp

text \<open>
  Claim C9, with the symmetry as the code has it. Hazard class 1: when the last
  character of \<open>a\<close> and the first character of \<open>b\<close> are both in \<^verbatim>\<open>[A-Za-z0-9_]\<close>,
  \<^verbatim>\<open>needs_separator(a, b)\<close> is true. With the two strings passed in the other order
  the boundary is the last character of \<open>b\<close> and the first of \<open>a\<close>:
  \<^verbatim>\<open>needs_separator(b, a)\<close> is true when these two are in the class. The rule treats
  its two boundary characters alike, so it fires for every pair \<open>a'\<close>, \<open>b'\<close> whose
  boundary characters are those of \<open>a\<close>, \<open>b\<close> in the other order.
\<close>

theorem needs_separator_ident_class:
  assumes "a \<noteq> []" and "b \<noteq> []"
    and "is_ident_char (last a)" and "is_ident_char (hd b)"
  shows "needs_separator a b
    \<and> (is_ident_char (last b) \<and> is_ident_char (hd a) \<longrightarrow> needs_separator b a)
    \<and> (\<forall>a' b'. a' \<noteq> [] \<and> b' \<noteq> [] \<and> last a' = hd b \<and> hd b' = last a
          \<longrightarrow> needs_separator a' b')"
  using assms by (simp add: needs_separator_def)

theorem needs_separator_ident_class_witness:
  "''int'' \<noteq> [] \<and> ''x1'' \<noteq> [] \<and> is_ident_char (last ''int'') \<and> is_ident_char (hd ''x1'')
   \<and> is_ident_char (last ''x1'') \<and> is_ident_char (hd ''int'')
   \<and> needs_separator ''int'' ''x1'' \<and> needs_separator ''x1'' ''int''
   \<and> needs_separator ''ax'' ''t_''"
proof -
  have h: "is_ident_char (last ''int'')" "is_ident_char (hd ''x1'')"
    "is_ident_char (last ''x1'')" "is_ident_char (hd ''int'')"
    by (simp_all add: is_ident_char_def isalnum_def isalpha_def is_upper_def is_lower_def
        isdigit_def code_of_def)
  have n: "''int'' \<noteq> []" "''x1'' \<noteq> []" by simp_all
  note t = needs_separator_ident_class [OF n h(1,2)]
  from t have "needs_separator ''int'' ''x1''" by (rule conjunct1)
  moreover have "needs_separator ''x1'' ''int''"
  proof -
    from t have "is_ident_char (last ''x1'') \<and> is_ident_char (hd ''int'')
        \<longrightarrow> needs_separator ''x1'' ''int''" by blast
    with h(3,4) show ?thesis by blast
  qed
  moreover have "needs_separator ''ax'' ''t_''"
  proof -
    from t have "\<forall>a' b'. a' \<noteq> [] \<and> b' \<noteq> [] \<and> last a' = hd ''x1'' \<and> hd b' = last ''int''
          \<longrightarrow> needs_separator a' b'" by blast
    then have "''ax'' \<noteq> [] \<and> ''t_'' \<noteq> [] \<and> last ''ax'' = hd ''x1'' \<and> hd ''t_'' = last ''int''
          \<longrightarrow> needs_separator ''ax'' ''t_''" by blast
    then show ?thesis by simp
  qed
  ultimately show ?thesis using h by simp
qed

text \<open>
  The rule is not symmetric in the two strings: for \<^verbatim>\<open>(x\<close> and \<^verbatim>\<open>y)\<close> the boundary
  characters \<^verbatim>\<open>x\<close>, \<^verbatim>\<open>y\<close> are in the class and a separator is needed; in the other
  order the boundary is \<^verbatim>\<open>)\<close>, \<^verbatim>\<open>(\<close>, and none is.
\<close>

theorem needs_separator_not_symmetric:
  "''(x'' \<noteq> [] \<and> ''y)'' \<noteq> []
   \<and> is_ident_char (last ''(x'') \<and> is_ident_char (hd ''y)'')
   \<and> needs_separator ''(x'' ''y)'' \<and> \<not> needs_separator ''y)'' ''(x''"
  by code_simp
section \<open>Properties of the art parser\<close>

text \<open>
  Claim C8. When the art text ends with a newline and no override is set, the empty
  piece that the split leaves after the final newline is dropped: for a text
  \<open>t\<close> followed by a newline the rows are the pieces of \<open>t\<close>, and \<open>H\<close> is their
  number. On \<^verbatim>\<open>"##\n#\n"\<close> the result is \<open>W = 2\<close>, \<open>H = 2\<close> with rows \<open>[1, 1]\<close> and
  \<open>[1, 0]\<close>.
\<close>

theorem parse_art_trailing_newline:
  "split_lines (t @ [CHR 0x0A]) = split_lines t @ [[]]
   \<and> art_lines (t @ [CHR 0x0A]) None None = split_lines t
   \<and> (\<exists>A. parse_art_to_density (t @ [CHR 0x0A]) None None dmap = Inr A
          \<and> art_H A = int (length (split_lines t)))
   \<and> parse_art_to_density [CHR ''#'', CHR ''#'', CHR 0x0A, CHR ''#'', CHR 0x0A] None None None
       = Inr \<lparr> art_W = 2, art_H = 2, density = [[1, 1], [1, 0]] \<rparr>"
proof -
  have a: "split_lines (t @ [CHR 0x0A]) = split_lines t @ [[]]"
    by (rule split_lines_snoc_newline)
  have b: "art_lines (t @ [CHR 0x0A]) None None = split_lines t"
    by (simp add: art_lines_def a)
  have w: "0 \<le> fold (\<lambda>s W. if int (length s) > W then int (length s) else W) xs w0" if "0 \<le> w0"
    for xs :: "32 word list list" and w0 :: int
    using that by (induction xs arbitrary: w0) auto
  have c: "\<exists>A. parse_art_to_density (t @ [CHR 0x0A]) None None dmap = Inr A
          \<and> art_H A = int (length (split_lines t))"
  proof -
    let ?u = "List.map utf8_to_u32 (split_lines t)"
    have "\<not> fold (\<lambda>s W. if int (length s) > W then int (length s) else W) ?u 0 < 0"
      using w [of 0 ?u] by simp
    then show ?thesis by (simp add: parse_art_to_density_def b Let_def)
  qed
  have d: "parse_art_to_density [CHR ''#'', CHR ''#'', CHR 0x0A, CHR ''#'', CHR 0x0A] None None None
       = Inr \<lparr> art_W = 2, art_H = 2, density = [[1, 1], [1, 0]] \<rparr>"
    by code_simp
  from a b c d show ?thesis by blast
qed

theorem parse_art_trailing_newline_witness:
  "art_lines [CHR ''#'', CHR ''#'', CHR 0x0A, CHR ''#'', CHR 0x0A] None None = [''##'', ''#'']
   \<and> split_lines [CHR ''#'', CHR ''#'', CHR 0x0A, CHR ''#'', CHR 0x0A] = [''##'', ''#'', []]"
proof -
  have s: "split_lines [CHR ''#'', CHR ''#'', CHR 0x0A, CHR ''#''] = [''##'', ''#'']"
    by code_simp
  note t = parse_art_trailing_newline [of "[CHR ''#'', CHR ''#'', CHR 0x0A, CHR ''#'']"]
  from t have "split_lines ([CHR ''#'', CHR ''#'', CHR 0x0A, CHR ''#''] @ [CHR 0x0A])
      = split_lines [CHR ''#'', CHR ''#'', CHR 0x0A, CHR ''#''] @ [[]]"
    by (rule conjunct1)
  moreover from t have "art_lines ([CHR ''#'', CHR ''#'', CHR 0x0A, CHR ''#''] @ [CHR 0x0A]) None None
      = split_lines [CHR ''#'', CHR ''#'', CHR 0x0A, CHR ''#'']"
    by blast
  ultimately show ?thesis unfolding s by simp
qed

section \<open>Properties of the layout engine\<close>








section \<open>Properties of the comment stripper and the tokenizer\<close>

text \<open>
  Claim C4 at a delimiter of 17 characters. The delimiter loops test
  \<^verbatim>\<open>raw_delim.size() > 16\<close> before they append, so they stop at the eighteenth
  character: a delimiter of 17 letters is taken as the opener of a raw string by the
  stripper (the \<^verbatim>\<open>//c\<close> after the literal is removed, the double quote inside it is
  kept) and by the tokenizer (the literal is one token), and one of 18 letters is not.
\<close>

theorem raw_delimiter_of_17:
  "raw_open (replicate 17 (CHR ''a'') @ ''(x'') = Some (replicate 17 (CHR ''a''), ''x'')
   \<and> raw_open (replicate 18 (CHR ''a'') @ ''(x'') = None
   \<and> strip_comments_preserve_literals (raw_with_delimiter 17 @ ''//c'') = raw_with_delimiter 17
   \<and> strip_comments_preserve_literals (raw_with_delimiter 18 @ ''//c'') = raw_with_delimiter 18 @ ''//c''
   \<and> parse_raw_string (raw_with_delimiter 17) = Some (length (raw_with_delimiter 17))
   \<and> parse_raw_string (raw_with_delimiter 18) = None
   \<and> tokenize_minimal_cpp (raw_with_delimiter 17) = [raw_with_delimiter 17]
   \<and> length (tokenize_minimal_cpp (raw_with_delimiter 18)) = 5"
  by code_simp

text \<open>
  Claim C6 at \<^verbatim>\<open>R/**/"d(")d"//"\<close>. The stripper removes the block comment and writes
  nothing in its place, so its output starts with the raw string opener \<^verbatim>\<open>R"d(\<close> that
  the input did not have. The first pass reads \<^verbatim>\<open>"d("\<close> as a string literal and
  \<^verbatim>\<open>"//"\<close> as another; the second pass reads a raw string literal and then a line
  comment, which it removes. The tokens of the two texts differ.
\<close>

theorem strip_twice_changes_tokens:
  "strip_comments_preserve_literals comment_after_R
       = ''R'' @ [dquote] @ ''d('' @ [dquote] @ '')d'' @ [dquote] @ ''//'' @ [dquote]
   \<and> strip_comments_preserve_literals (strip_comments_preserve_literals comment_after_R)
       = ''R'' @ [dquote] @ ''d('' @ [dquote] @ '')d'' @ [dquote]
   \<and> tokenize_minimal_cpp (strip_comments_preserve_literals comment_after_R)
       = [''R'' @ [dquote] @ ''d('' @ [dquote] @ '')d'' @ [dquote], ''/'', ''/'', [dquote]]
   \<and> tokenize_minimal_cpp (strip_comments_preserve_literals (strip_comments_preserve_literals comment_after_R))
       = [''R'' @ [dquote] @ ''d('' @ [dquote] @ '')d'' @ [dquote]]"
  by code_simp

text \<open>
  Claim C1 at the source \<^verbatim>\<open>L "x"\<close>, with \<open>W = 80\<close> and \<open>H = 0\<close>. Its tokens are
  \<^verbatim>\<open>L\<close> and \<^verbatim>\<open>"x"\<close>; \<^verbatim>\<open>needs_separator\<close> has no rule for an encoding prefix before a
  literal, so the overflow row is \<^verbatim>\<open>L"x"\<close>, which the tokenizer reads as one
  token.
\<close>

theorem prefix_and_literal_merge:
  "tokenize_minimal_cpp (strip_comments_preserve_literals ident_then_string)
       = [''L'', [dquote] @ ''x'' @ [dquote]]
   \<and> precondition [''L'', [dquote] @ ''x'' @ [dquote]] 80 0 []
   \<and> \<not> needs_separator ''L'' ([dquote] @ ''x'' @ [dquote])
   \<and> convert_layout [''L'', [dquote] @ ''x'' @ [dquote]] 80 0 [] default_ascii_density_01 (\<lambda>_. 0)
       = Some (Inr (''L'' @ [dquote] @ ''x'' @ [dquote, CHR 0x0A]))
   \<and> tokenize_minimal_cpp (strip_comments_preserve_literals (''L'' @ [dquote] @ ''x'' @ [dquote, CHR 0x0A]))
       = [''L'' @ [dquote] @ ''x'' @ [dquote]]"
  by code_simp
section \<open>Properties of the command line\<close>

text \<open>
  Claim C3 where no file exists. The arguments parse and the output path can be
  written. The missing art is read as the empty text, which splits into one empty
  line: \<open>H = 1\<close> and \<open>W = 0\<close>, so the default \<^verbatim>\<open>W = 80\<close> for an art without lines is
  not taken, the assertion of \<^verbatim>\<open>convert_layout\<close> fails and the run aborts. The
  default is taken with \<^verbatim>\<open>--height 0\<close>, and the run exits with code 0; so does the
  run with \<^verbatim>\<open>--width 80\<close>.
\<close>

theorem main_missing_art_aborts:
  "parse_args example_argv = Parsed example_args
   \<and> writable no_files (arg_out example_args)
   \<and> files no_files (arg_art example_args) = None
   \<and> read_file no_files (arg_art example_args) = []
   \<and> parse_art_to_density [] None None (Some default_ascii_density_01)
       = Inr \<lparr> art_W = 0, art_H = 1, density = [[]] \<rparr>
   \<and> main example_argv no_files (\<lambda>_. 0) = Some (Aborted AssertionFailed)
   \<and> parse_art_to_density [] None (Some 0) (Some default_ascii_density_01)
       = Inr \<lparr> art_W = 80, art_H = 0, density = [] \<rparr>
   \<and> main (example_argv @ [''--height'', ''0'']) no_files (\<lambda>_. 0)
       = Some (Exited 0 (Some (''o.cpp'', [])))
   \<and> (\<exists>output. main (example_argv @ [''--width'', ''80'']) no_files (\<lambda>_. 0)
          = Some (Exited 0 (Some (''o.cpp'', output))))"
proof -
  have a: "parse_args example_argv = Parsed example_args
   \<and> writable no_files (arg_out example_args)
   \<and> files no_files (arg_art example_args) = None
   \<and> read_file no_files (arg_art example_args) = []
   \<and> parse_art_to_density [] None None (Some default_ascii_density_01)
       = Inr \<lparr> art_W = 0, art_H = 1, density = [[]] \<rparr>
   \<and> main example_argv no_files (\<lambda>_. 0) = Some (Aborted AssertionFailed)
   \<and> parse_art_to_density [] None (Some 0) (Some default_ascii_density_01)
       = Inr \<lparr> art_W = 80, art_H = 0, density = [] \<rparr>
   \<and> main (example_argv @ [''--height'', ''0'']) no_files (\<lambda>_. 0)
       = Some (Exited 0 (Some (''o.cpp'', [])))"
    by code_simp
  let ?args = "example_args \<lparr> arg_width := Some 80 \<rparr>"
  have p: "parse_args (example_argv @ [''--width'', ''80'']) = Parsed ?args" by code_simp
  have w: "writable no_files (arg_out ?args)" by (simp add: no_files_def)
  have r: "read_file no_files path = []" for path by (simp add: read_file_def no_files_def)
  have "\<exists>art. parse_art_to_density [] (Some 80) None (Some default_ascii_density_01) = Inr art
      \<and> art_W art = 80 \<and> art_H art = 1"
    by (simp add: parse_art_to_density_def art_lines_def split_lines_Nil Let_def)
  then obtain art where art: "parse_art_to_density (read_file no_files (arg_art ?args)) (arg_width ?args)
        (arg_height ?args) (Some default_ascii_density_01) = Inr art"
    and wh: "art_W art = 80" "art_H art = 1"
    by (auto simp: r example_args_def)
  have wide: "max min_width (fold (\<lambda>t maxl. max maxl (int (length t)))
        (tokenize_minimal_cpp (strip_comments_preserve_literals (read_file no_files (arg_code ?args)))) 0)
          < art_W art + shoot"
    by (simp add: r tokens_of_empty wh min_width_def shoot_def)
  have fits: "table_fits (art_W art) (art_H art)"
    by (simp add: wh table_fits_def shoot_def INT_MAX_def)
  from main_exit_0 [OF p w art wide fits, of "\<lambda>_. 0"]
  have "\<exists>output. main (example_argv @ [''--width'', ''80'']) no_files (\<lambda>_. 0)
          = Some (Exited 0 (Some (''o.cpp'', output)))"
    by (simp add: example_args_def)
  with a show ?thesis by blast
qed
end
